theory Spec2Isabelle
  imports Complex_Main "HOL-Library.Multiset"
begin

section \<open>Floating-point values\<close>

text \<open>
  The arrays of the package hold numpy \<open>float64\<close> values. A value is a finite real, one
  of the two infinities, or NaN. The sign of a zero is not represented (\<open>-0.0 == 0.0\<close>
  in every comparison the code makes; a division by a zero takes the zero as \<open>+0.0\<close>),
  and overflow of a finite result to an infinity is not modelled.

  Every arithmetic operation takes the rounding \<open>r\<close> that is applied to its finite
  result: the identity gives exact arithmetic, \<open>round_binary64\<close> (below) the
  round-to-nearest-even of IEEE 754 doubles.
\<close>

datatype fval = Fin real | PInf | NInf | NaN

type_synonym rounding = "real \<Rightarrow> real"

definition inf_of_sign :: "real \<Rightarrow> fval" where
  "inf_of_sign s = (if s = 0 then NaN else if 0 < s then PInf else NInf)"

fun fl_neg :: "fval \<Rightarrow> fval" where
  "fl_neg (Fin a) = Fin (- a)"
| "fl_neg PInf = NInf"
| "fl_neg NInf = PInf"
| "fl_neg NaN = NaN"

fun fl_add :: "rounding \<Rightarrow> fval \<Rightarrow> fval \<Rightarrow> fval" where
  "fl_add r (Fin a) (Fin b) = Fin (r (a + b))"
| "fl_add r NaN y = NaN"
| "fl_add r x NaN = NaN"
| "fl_add r PInf NInf = NaN"
| "fl_add r NInf PInf = NaN"
| "fl_add r PInf y = PInf"
| "fl_add r x PInf = PInf"
| "fl_add r NInf y = NInf"
| "fl_add r x NInf = NInf"

definition fl_sub :: "rounding \<Rightarrow> fval \<Rightarrow> fval \<Rightarrow> fval" where
  "fl_sub r x y = fl_add r x (fl_neg y)"

fun fl_mul :: "rounding \<Rightarrow> fval \<Rightarrow> fval \<Rightarrow> fval" where
  "fl_mul r (Fin a) (Fin b) = Fin (r (a * b))"
| "fl_mul r NaN y = NaN"
| "fl_mul r x NaN = NaN"
| "fl_mul r (Fin a) PInf = inf_of_sign a"
| "fl_mul r (Fin a) NInf = inf_of_sign (- a)"
| "fl_mul r PInf (Fin b) = inf_of_sign b"
| "fl_mul r NInf (Fin b) = inf_of_sign (- b)"
| "fl_mul r PInf PInf = PInf"
| "fl_mul r PInf NInf = NInf"
| "fl_mul r NInf PInf = NInf"
| "fl_mul r NInf NInf = PInf"

fun fl_div :: "rounding \<Rightarrow> fval \<Rightarrow> fval \<Rightarrow> fval" where
  "fl_div r (Fin a) (Fin b) = (if b = 0 then inf_of_sign a else Fin (r (a / b)))"
| "fl_div r NaN y = NaN"
| "fl_div r x NaN = NaN"
| "fl_div r (Fin a) PInf = Fin 0"
| "fl_div r (Fin a) NInf = Fin 0"
| "fl_div r PInf (Fin b) = (if 0 \<le> b then PInf else NInf)"
| "fl_div r NInf (Fin b) = (if 0 \<le> b then NInf else PInf)"
| "fl_div r PInf PInf = NaN"
| "fl_div r PInf NInf = NaN"
| "fl_div r NInf PInf = NaN"
| "fl_div r NInf NInf = NaN"

definition fl_square :: "rounding \<Rightarrow> fval \<Rightarrow> fval" where
  "fl_square r x = fl_mul r x x"

text \<open>The comparisons of IEEE 754: every comparison with NaN is false.\<close>

fun fl_lt :: "fval \<Rightarrow> fval \<Rightarrow> bool" where
  "fl_lt (Fin a) (Fin b) = (a < b)"
| "fl_lt NaN y = False"
| "fl_lt x NaN = False"
| "fl_lt x NInf = False"
| "fl_lt PInf y = False"
| "fl_lt NInf y = True"
| "fl_lt x PInf = True"

definition fl_le :: "fval \<Rightarrow> fval \<Rightarrow> bool" where
  "fl_le x y = (x \<noteq> NaN \<and> y \<noteq> NaN \<and> (x = y \<or> fl_lt x y))"

definition isnan :: "fval \<Rightarrow> bool" where
  "isnan x = (x = NaN)"

text \<open>\<open>x != 0\<close> and \<open>x == 0\<close> on a float: NaN and the infinities differ from 0.\<close>

definition nonzero :: "fval \<Rightarrow> bool" where
  "nonzero x = (x \<noteq> Fin 0)"

text \<open>
  The order numpy sorts floats by (\<open>npy_sort\<close>'s \<open>LT\<close>): the IEEE order with NaN
  placed after every other value.
\<close>

definition sort_lt :: "fval \<Rightarrow> fval \<Rightarrow> bool" where
  "sort_lt a b = (fl_lt a b \<or> (b = NaN \<and> a \<noteq> NaN))"

subsection \<open>Reductions\<close>

text \<open>
  \<open>np.sum\<close> adds the entries with float additions, but numpy fixes neither the order
  nor the grouping of the additions: a reduction whose inner loop runs along the reduced
  axis adds in blocks and pairwise, a reduction along a strided axis of a
  Fortran-ordered array adds from left to right, and a reduction over a whole block
  follows the memory order. Which of them runs depends on the memory layout of the
  operand, which is not part of the values. The summation is therefore a parameter of
  the model, one for every call of the source: \<open>sm l\<close> is what the call at line \<open>l\<close>
  computes from the entries (in index order).

  What every one of numpy's summations does is \<open>sum_spec\<close>: the result is the value of
  some tree of float additions over the entries, taken in some order, and the sum of no
  entry is 0.
\<close>

type_synonym summation = "fval list \<Rightarrow> fval"

inductive sum_tree :: "rounding \<Rightarrow> fval multiset \<Rightarrow> fval \<Rightarrow> bool" for r where
  empty: "sum_tree r {#} (Fin 0)"
| leaf: "sum_tree r {#x#} x"
| node: "sum_tree r A a \<Longrightarrow> sum_tree r B b \<Longrightarrow> sum_tree r (A + B) (fl_add r a b)"

definition sum_spec :: "rounding \<Rightarrow> summation \<Rightarrow> bool" where
  "sum_spec r s = (\<forall>xs. sum_tree r (mset xs) (s xs))"

text \<open>The summation from left to right, starting at 0 (a strided reduction).\<close>

definition sum_sequential :: "rounding \<Rightarrow> summation" where
  "sum_sequential r xs = foldl (fl_add r) (Fin 0) xs"

definition sequential_sums :: "rounding \<Rightarrow> nat \<Rightarrow> summation" where
  "sequential_sums r l = sum_sequential r"

text \<open>
  numpy's \<open>pairwise_sum\<close> (the inner loop of \<open>add.reduce\<close> along a reduced axis): fewer
  than 8 entries are added from left to right; up to 128 entries are added into 8
  accumulators, entry \<open>i\<close> into accumulator \<open>i mod 8\<close>, the accumulators are added as
  \<open>((r0 + r1) + (r2 + r3)) + ((r4 + r5) + (r6 + r7))\<close> and the entries left over (fewer
  than 8) are added to that one by one; a longer run is cut in two at
  \<open>n div 2 - n div 2 mod 8\<close> and the sums of the two parts are added. The reduction adds
  the result to its initial 0.
\<close>

function block_loop :: "rounding \<Rightarrow> fval list \<Rightarrow> fval list \<Rightarrow> fval list \<times> fval list" where
  "block_loop r acc xs =
     (if length xs < 8 then (acc, xs)
      else block_loop r (map2 (fl_add r) acc (take 8 xs)) (drop 8 xs))"
  by pat_completeness auto
termination by (relation "measure (\<lambda>(r, acc, xs). length xs)") auto

definition add_accumulators :: "rounding \<Rightarrow> fval list \<Rightarrow> fval" where
  "add_accumulators r a =
     fl_add r (fl_add r (fl_add r (a ! 0) (a ! 1)) (fl_add r (a ! 2) (a ! 3)))
              (fl_add r (fl_add r (a ! 4) (a ! 5)) (fl_add r (a ! 6) (a ! 7)))"

function pairwise_sum :: "rounding \<Rightarrow> fval list \<Rightarrow> fval" where
  "pairwise_sum r xs =
     (let n = length xs in
      if n < 8 then foldl (fl_add r) (Fin 0) xs
      else if n \<le> 128 then
        (case block_loop r (take 8 xs) (drop 8 xs) of
           (acc, rest) \<Rightarrow> foldl (fl_add r) (add_accumulators r acc) rest)
      else
        (let n2 = n div 2 - n div 2 mod 8
         in fl_add r (pairwise_sum r (take n2 xs)) (pairwise_sum r (drop n2 xs))))"
  by pat_completeness auto
termination by (relation "measure (\<lambda>(r, xs). length xs)") auto

definition sum_pairwise :: "rounding \<Rightarrow> summation" where
  "sum_pairwise r xs = fl_add r (Fin 0) (pairwise_sum r xs)"

definition replace_nan :: "fval list \<Rightarrow> fval list" where
  "replace_nan xs = map (\<lambda>x. if x = NaN then Fin 0 else x) xs"

definition count_not_nan :: "fval list \<Rightarrow> nat" where
  "count_not_nan xs = length (filter (\<lambda>x. x \<noteq> NaN) xs)"

text \<open>\<open>np.nansum\<close>: NaN entries are replaced by 0 before the sum.\<close>

definition np_nansum :: "summation \<Rightarrow> fval list \<Rightarrow> fval" where
  "np_nansum s xs = s (replace_nan xs)"

text \<open>
  \<open>np.nanmean\<close>: the sum of the entries that are not NaN over their number; with no
  such entry the quotient is \<open>0 / 0\<close>, NaN (numpy warns and returns NaN).
\<close>

definition np_nanmean :: "rounding \<Rightarrow> summation \<Rightarrow> fval list \<Rightarrow> fval" where
  "np_nanmean r s xs = fl_div r (np_nansum s xs) (Fin (real (count_not_nan xs)))"

text \<open>
  The exact sum of a collection of values: NaN when it holds a NaN or both infinities,
  the infinity it holds otherwise, and else the sum of its finite values.
\<close>

definition fin_part :: "fval \<Rightarrow> real" where
  "fin_part x = (case x of Fin a \<Rightarrow> a | _ \<Rightarrow> 0)"

definition exact_sum :: "fval multiset \<Rightarrow> fval" where
  "exact_sum M =
     (if NaN \<in># M \<or> (PInf \<in># M \<and> NInf \<in># M) then NaN
      else if PInf \<in># M then PInf
      else if NInf \<in># M then NInf
      else Fin (sum_mset (image_mset fin_part M)))"

text \<open>
  IEEE 754 binary64, round to nearest, ties to even, for the values of the normal range
  (53 significant bits; neither overflow nor the subnormal numbers are modelled).
\<close>

definition round_half_even :: "real \<Rightarrow> int" where
  "round_half_even x =
     (let f = \<lfloor>x\<rfloor>; d = x - of_int f
      in if d < 1 / 2 then f else if 1 / 2 < d then f + 1 else if even f then f else f + 1)"

definition round_binary64 :: rounding where
  "round_binary64 x =
     (if x = 0 then 0
      else let e = \<lfloor>log 2 \<bar>x\<bar>\<rfloor> - 52
           in of_int (round_half_even (x * 2 powr (- of_int e))) * 2 powr (of_int e))"

text \<open>
  \<open>np.argmax\<close> and \<open>np.max\<close> on a non-empty vector: the first position of the
  maximum, where a NaN counts as the maximum (the scan replaces its candidate whenever
  \<open>not (x <= candidate)\<close> and stops at a NaN).
\<close>

fun argmax_scan :: "nat \<Rightarrow> fval \<Rightarrow> nat \<Rightarrow> fval list \<Rightarrow> nat" where
  "argmax_scan bi bv i [] = bi"
| "argmax_scan bi bv i (x # xs) =
     (if bv = NaN then bi
      else if \<not> fl_le x bv then argmax_scan i x (Suc i) xs
      else argmax_scan bi bv (Suc i) xs)"

definition np_argmax :: "fval list \<Rightarrow> nat" where
  "np_argmax xs = argmax_scan 0 (hd xs) 1 (tl xs)"

definition np_max :: "fval list \<Rightarrow> fval" where
  "np_max xs = xs ! np_argmax xs"

text \<open>A Python slice \<open>v[s:e]\<close> with non-negative bounds: it is clipped, never an error.\<close>

definition slice :: "nat \<Rightarrow> nat \<Rightarrow> 'a list \<Rightarrow> 'a list" where
  "slice s e xs = take (e - s) (drop s xs)"

definition tab :: "nat \<Rightarrow> (nat \<Rightarrow> 'a) \<Rightarrow> 'a list" where
  "tab n f = map f [0..<n]"

section \<open>Arrays and errors\<close>

text \<open>
  An input array is its shape and its element function; reading it is only done inside
  the shape. The arrays a function returns are nested lists in numpy's index order.
\<close>

datatype array2 = Array2 nat nat "nat \<Rightarrow> nat \<Rightarrow> fval"
datatype array3 = Array3 nat nat nat "nat \<Rightarrow> nat \<Rightarrow> nat \<Rightarrow> fval"
datatype array4 = Array4 nat nat nat nat "nat \<Rightarrow> nat \<Rightarrow> nat \<Rightarrow> nat \<Rightarrow> fval"

datatype error = IndexError | ValueError | NameError

section \<open>participation\_coefficient\_sign\<close>

text \<open>
  \<^verbatim>\<open>src/participation_coefficient_sign.py\<close>, on a nodes x nodes array (the matrix
  product of line 28 fixes the meaning of the code to two dimensions), an affiliation
  vector of integers and the number of networks.

  Line 28, \<open>np.matmul(fcArray != 0, np.diag(thisNetAffilVec))\<close>: entry \<open>(i, j)\<close> of the
  product is the affiliation of column \<open>j\<close> where \<open>fcArray[i, j] != 0\<close> (NaN and the
  infinities differ from 0) and 0 elsewhere. The product raises ValueError unless the
  array has as many columns as the vector has entries.
\<close>

definition bool_fval :: "bool \<Rightarrow> fval" where
  "bool_fval b = Fin (if b then 1 else 0)"

text \<open>Line 27: the row sums of the array, by the summation of that call.\<close>

definition degreeOfROIs :: "(nat \<Rightarrow> summation) \<Rightarrow> (nat \<Rightarrow> nat \<Rightarrow> fval) \<Rightarrow> nat \<Rightarrow> nat \<Rightarrow> fval" where
  "degreeOfROIs sm f m i = np_nansum (sm 27) (tab m (\<lambda>j. f i j))"

definition netAffilMask :: "(nat \<Rightarrow> nat \<Rightarrow> fval) \<Rightarrow> int list \<Rightarrow> nat \<Rightarrow> nat \<Rightarrow> int" where
  "netAffilMask f affil i j = (if nonzero (f i j) then affil ! j else 0)"

text \<open>Lines 35--36: \<open>vecHere = fcArray * (netAffilMask == netNum)\<close> and its row sums.\<close>

definition vecHere :: "rounding \<Rightarrow> (nat \<Rightarrow> nat \<Rightarrow> fval) \<Rightarrow> int list \<Rightarrow> int \<Rightarrow> nat \<Rightarrow> nat \<Rightarrow> fval" where
  "vecHere r f affil netNum i j = fl_mul r (f i j) (bool_fval (netAffilMask f affil i j = netNum))"

definition sumVec ::
  "rounding \<Rightarrow> (nat \<Rightarrow> summation) \<Rightarrow> (nat \<Rightarrow> nat \<Rightarrow> fval) \<Rightarrow> int list \<Rightarrow> nat \<Rightarrow> int \<Rightarrow> nat \<Rightarrow> fval" where
  "sumVec r sm f affil m netNum i = np_nansum (sm 36) (tab m (\<lambda>j. vecHere r f affil netNum i j))"

text \<open>Lines 32--38: the loop over \<open>range(1, numNets + 1)\<close> that builds \<open>arrHere\<close>.\<close>

definition arrHere ::
  "rounding \<Rightarrow> (nat \<Rightarrow> summation) \<Rightarrow> (nat \<Rightarrow> nat \<Rightarrow> fval) \<Rightarrow> int list \<Rightarrow> nat \<Rightarrow> nat \<Rightarrow> nat \<Rightarrow> fval" where
  "arrHere r sm f affil m numNets i =
     foldl (\<lambda>acc netNum. fl_add r acc (fl_square r (sumVec r sm f affil m netNum i)))
       (Fin 0) (map (\<lambda>k. int (Suc k)) [0..<numNets])"

text \<open>
  Lines 40--61 for one node: the squared degree, with a zero replaced by NaN; the
  coefficient; then the three passes that write 0 (over NaN, over the nodes of degree 0,
  and over the entries that are already 0).
\<close>

definition partCoef ::
  "rounding \<Rightarrow> (nat \<Rightarrow> summation) \<Rightarrow> (nat \<Rightarrow> nat \<Rightarrow> fval) \<Rightarrow> int list \<Rightarrow> nat \<Rightarrow> nat \<Rightarrow> nat \<Rightarrow> fval" where
  "partCoef r sm f affil m numNets i =
     (let deg = degreeOfROIs sm f m i;
          sq = fl_square r deg;
          squareDegrees = (if sq = Fin 0 then NaN else sq);
          p1 = fl_sub r (Fin 1) (fl_div r (arrHere r sm f affil m numNets i) squareDegrees);
          p2 = (if isnan p1 then Fin 0 else p1);
          p3 = (if deg = Fin 0 then Fin 0 else p2)
      in (if p3 = Fin 0 then Fin 0 else p3))"

fun participation_coefficient_sign ::
  "rounding \<Rightarrow> (nat \<Rightarrow> summation) \<Rightarrow> array2 \<Rightarrow> int list \<Rightarrow> nat \<Rightarrow> error + fval list" where
  "participation_coefficient_sign r sm (Array2 n m f) thisNetAffilVec numNets =
     (if m \<noteq> length thisNetAffilVec then Inl ValueError
      else Inr (tab n (partCoef r sm f thisNetAffilVec m numNets)))"

text \<open>
  What the theorems ask of a rounding: 0 and 1 are values of the format, and a value of
  the format is not rounded again. An array is representable when its finite entries
  are values of the format.
\<close>

definition rounding_ok :: "rounding \<Rightarrow> bool" where
  "rounding_ok r = (r 0 = 0 \<and> r 1 = 1 \<and> (\<forall>x. r (r x) = r x))"

definition representable :: "rounding \<Rightarrow> fval \<Rightarrow> bool" where
  "representable r x = (case x of Fin a \<Rightarrow> r a = a | _ \<Rightarrow> True)"

text \<open>
  Node \<open>i\<close> has its edges confined to its own module: its module is one of
  \<open>1 .. numNets\<close>, and every entry of its row that is neither 0 nor NaN lies in a
  column of that module.
\<close>

definition confined :: "(nat \<Rightarrow> nat \<Rightarrow> fval) \<Rightarrow> int list \<Rightarrow> nat \<Rightarrow> nat \<Rightarrow> nat \<Rightarrow> bool" where
  "confined f affil m numNets i =
     (1 \<le> affil ! i \<and> affil ! i \<le> int numNets \<and>
      (\<forall>j<m. f i j \<noteq> Fin 0 \<and> f i j \<noteq> NaN \<longrightarrow> affil ! j = affil ! i))"

text \<open>
  A four-node example: nodes 0 and 1 (module 1) are joined by an edge of weight 1/2 and
  carry NaN on the diagonal, nodes 2 and 3 (module 2) have no edge at all.
\<close>

definition pc_example :: "nat \<Rightarrow> nat \<Rightarrow> fval" where
  "pc_example i j = (if (i = 0 \<and> j = 1) \<or> (i = 1 \<and> j = 0) then Fin (1/2) else if i = j \<and> i < 2 then NaN else Fin 0)"


text \<open>
  Eight nodes of one module, every edge of weight 0.1 (the double nearest to it) and a
  diagonal of zeros; and the summations numpy runs on a Fortran-ordered array of that
  kind: line 27 adds the strided rows from left to right, line 36 adds the rows of the
  freshly made product \<open>vecHere\<close> pairwise.
\<close>

definition tenth :: real where
  "tenth = 3602879701896397 / 2 ^ 55"

definition tenths :: "nat \<Rightarrow> nat \<Rightarrow> fval" where
  "tenths i j = (if i = j then Fin 0 else Fin tenth)"

definition sums_fortran_order :: "rounding \<Rightarrow> nat \<Rightarrow> summation" where
  "sums_fortran_order r l = (if l = 27 then sum_sequential r else sum_pairwise r)"

section \<open>deviation\<close>

text \<open>
  \<^verbatim>\<open>src/cole_lab_net_metrics/deviation.py\<close>. The partition is an array with one row
  \<open>(start, end, size)\<close> per network, of region indices; \<open>nodeOrder\<close> is an index vector.
  \<open>netBoundariesNew\<close> and \<open>nodeOrderNew\<close> are read only when
  \<open>useRestPartitionAdjuster\<close> is set (the call with the flag set and the default
  \<open>None\<close> left in place is outside the model).
\<close>

type_synonym boundaries = "(nat \<times> nat \<times> nat) list"

text \<open>\<open>startNode = boundariesHere[netNum, 0]\<close> and \<open>endNode = boundariesHere[netNum, 1] + 1\<close>.\<close>

definition startNode :: "boundaries \<Rightarrow> nat \<Rightarrow> nat" where
  "startNode b netNum = fst (b ! netNum)"

definition endNode :: "boundaries \<Rightarrow> nat \<Rightarrow> nat" where
  "endNode b netNum = fst (snd (b ! netNum)) + 1"

text \<open>
  \<open>a[nodeOrder, :][:, nodeOrder]\<close>, and with the adjusted partition
  \<open>a[nodeOrder, :][:, nodeOrder][nodeOrderNew, :][:, nodeOrderNew]\<close>: row and column
  \<open>k\<close> of the result are row and column \<open>sortIndex ! k\<close> of \<open>a\<close>. numpy raises
  IndexError when an entry of \<open>nodeOrder\<close> is outside the array, or an entry of
  \<open>nodeOrderNew\<close> is outside the re-ordered array; reading row \<open>nodeNum\<close> of the result
  raises IndexError when the result has no such row.
\<close>

definition sortIndex :: "nat list \<Rightarrow> bool \<Rightarrow> nat list \<Rightarrow> nat list" where
  "sortIndex nodeOrder useRestPartitionAdjuster nodeOrderNew =
     (if useRestPartitionAdjuster then map (\<lambda>k. nodeOrder ! k) nodeOrderNew else nodeOrder)"

definition index_ok :: "nat \<Rightarrow> nat \<Rightarrow> nat list \<Rightarrow> bool \<Rightarrow> nat list \<Rightarrow> bool" where
  "index_ok n0 n1 nodeOrder useRestPartitionAdjuster nodeOrderNew =
     (list_all (\<lambda>x. x < n0 \<and> x < n1) nodeOrder \<and>
      (useRestPartitionAdjuster \<longrightarrow> list_all (\<lambda>x. x < length nodeOrder) nodeOrderNew) \<and>
      n0 \<le> length (sortIndex nodeOrder useRestPartitionAdjuster nodeOrderNew))"

subsection \<open>Clustering (lines 50--75 and 146--172)\<close>

text \<open>
  Per-subject mode: \<open>thisNodeVec = thisTask[nodeNum, :]\<close> is a row of the re-ordered
  slice \<open>fcArray[:, :, taskNum, subjNum]\<close>, and \<open>clusterMean\<close> the \<open>nanmean\<close> of its
  entries in the columns of the network.
\<close>

definition thisNodeVec ::
  "(nat \<Rightarrow> nat \<Rightarrow> nat \<Rightarrow> nat \<Rightarrow> fval) \<Rightarrow> nat list \<Rightarrow> nat \<Rightarrow> nat \<Rightarrow> nat \<Rightarrow> fval list" where
  "thisNodeVec fc idx nodeNum taskNum subjNum =
     tab (length idx) (\<lambda>c. fc (idx ! nodeNum) (idx ! c) taskNum subjNum)"

definition clusterMean ::
  "rounding \<Rightarrow> (nat \<Rightarrow> summation) \<Rightarrow> (nat \<Rightarrow> nat \<Rightarrow> nat \<Rightarrow> nat \<Rightarrow> fval) \<Rightarrow> boundaries \<Rightarrow> nat list \<Rightarrow>
   nat \<Rightarrow> nat \<Rightarrow> nat \<Rightarrow> nat \<Rightarrow> fval" where
  "clusterMean r sm fc b idx subjNum nodeNum netNum taskNum =
     np_nanmean r (sm 169) (slice (startNode b netNum) (endNode b netNum)
                     (thisNodeVec fc idx nodeNum taskNum subjNum))"

text \<open>
  Mean-first mode: \<open>fcArray[:, :, ruleSet]\<close> is still a nodes x nodes x subjects
  array, so \<open>thisTask[nodeNum, :]\<close> holds one row of subjects per column and
  \<open>thisCluster\<close> is the block of the network's columns by all subjects; \<open>np.nanmean\<close>
  without an axis averages the whole block.
\<close>

definition thisNodeBlock ::
  "(nat \<Rightarrow> nat \<Rightarrow> nat \<Rightarrow> nat \<Rightarrow> fval) \<Rightarrow> nat \<Rightarrow> nat list \<Rightarrow> nat \<Rightarrow> nat \<Rightarrow> fval list list" where
  "thisNodeBlock fc numSubjs idx nodeNum ruleSet =
     tab (length idx) (\<lambda>c. tab numSubjs (\<lambda>s. fc (idx ! nodeNum) (idx ! c) ruleSet s))"

definition clusterMeanPooled ::
  "rounding \<Rightarrow> (nat \<Rightarrow> summation) \<Rightarrow> (nat \<Rightarrow> nat \<Rightarrow> nat \<Rightarrow> nat \<Rightarrow> fval) \<Rightarrow> nat \<Rightarrow> boundaries \<Rightarrow> nat list \<Rightarrow>
   nat \<Rightarrow> nat \<Rightarrow> nat \<Rightarrow> fval" where
  "clusterMeanPooled r sm fc numSubjs b idx nodeNum netNum ruleSet =
     np_nanmean r (sm 72) (concat (slice (startNode b netNum) (endNode b netNum)
                             (thisNodeBlock fc numSubjs idx nodeNum ruleSet)))"

subsection \<open>Preferences, memberships and affinities\<close>

text \<open>
  The stages after the clustering are the same code in both modes; they are written
  once over \<open>cl nodeNum netNum taskNum\<close>, the clustered array (of one subject, or of the
  pooled subjects). Their summations are named by the lines of the mean-first branch
  (113, 124 and 131); the per-subject branch makes the same calls at lines 213, 226 and
  234, and passes those on with \<open>per_subject_sums\<close>.
\<close>

definition per_subject_line :: "nat \<Rightarrow> nat" where
  "per_subject_line l =
     (if l = 113 then 213 else if l = 124 then 226 else if l = 131 then 234 else l)"

definition per_subject_sums :: "(nat \<Rightarrow> summation) \<Rightarrow> nat \<Rightarrow> summation" where
  "per_subject_sums sm l = sm (per_subject_line l)"

type_synonym clustered = "nat \<Rightarrow> nat \<Rightarrow> nat \<Rightarrow> fval"

definition prefVec :: "clustered \<Rightarrow> nat \<Rightarrow> nat \<Rightarrow> nat \<Rightarrow> fval list" where
  "prefVec cl numNets nodeNum taskNum = tab numNets (\<lambda>netNum. cl nodeNum netNum taskNum)"

definition maxVal :: "clustered \<Rightarrow> nat \<Rightarrow> nat \<Rightarrow> nat \<Rightarrow> fval" where
  "maxVal cl numNets nodeNum taskNum = np_max (prefVec cl numNets nodeNum taskNum)"

definition maxIdx :: "clustered \<Rightarrow> nat \<Rightarrow> nat \<Rightarrow> nat \<Rightarrow> nat" where
  "maxIdx cl numNets nodeNum taskNum = np_argmax (prefVec cl numNets nodeNum taskNum)"

text \<open>\<open>memberTF = (thisNodeVec == netNum) * 1\<close>, stored in a float array.\<close>

definition memberTF :: "clustered \<Rightarrow> nat \<Rightarrow> nat \<Rightarrow> nat \<Rightarrow> nat \<Rightarrow> fval" where
  "memberTF cl numNets nodeNum taskNum netNum = bool_fval (maxIdx cl numNets nodeNum taskNum = netNum)"

text \<open>\<open>thisNodeRF = np.sum(thisNodeVec) / numTasks\<close>.\<close>

definition thisNodeRF ::
  "rounding \<Rightarrow> (nat \<Rightarrow> summation) \<Rightarrow> clustered \<Rightarrow> nat \<Rightarrow> nat \<Rightarrow> nat \<Rightarrow> nat \<Rightarrow> fval" where
  "thisNodeRF r sm cl numNets numTasks nodeNum netNum =
     fl_div r (sm 113 (tab numTasks (\<lambda>taskNum. memberTF cl numNets nodeNum taskNum netNum)))
       (Fin (real numTasks))"

text \<open>\<open>clusterMeanRFs = np.nanmean(netAffinities[startNode:endNode, :], axis=0)\<close>.\<close>

definition clusterMeanRFs ::
  "rounding \<Rightarrow> (nat \<Rightarrow> summation) \<Rightarrow> clustered \<Rightarrow> boundaries \<Rightarrow> nat \<Rightarrow> nat \<Rightarrow> nat \<Rightarrow> nat \<Rightarrow> nat \<Rightarrow> fval" where
  "clusterMeanRFs r sm cl b nParcels numNets numTasks netNum net2 =
     np_nanmean r (sm 124) (slice (startNode b netNum) (endNode b netNum)
                     (tab nParcels (\<lambda>nodeNum. thisNodeRF r sm cl numNets numTasks nodeNum net2)))"

text \<open>
  The sanity check: \<open>fullPercentTest = np.sum(thisNet) * 100\<close>, reported when
  \<open>fullPercentTest < 99.9\<close>.
\<close>

definition fullPercentTest ::
  "rounding \<Rightarrow> (nat \<Rightarrow> summation) \<Rightarrow> clustered \<Rightarrow> boundaries \<Rightarrow> nat \<Rightarrow> nat \<Rightarrow> nat \<Rightarrow> nat \<Rightarrow> fval" where
  "fullPercentTest r sm cl b nParcels numNets numTasks netNum =
     fl_mul r (sm 131 (tab numNets (clusterMeanRFs r sm cl b nParcels numNets numTasks netNum)))
       (Fin 100)"

definition adherenceRF ::
  "rounding \<Rightarrow> (nat \<Rightarrow> summation) \<Rightarrow> clustered \<Rightarrow> boundaries \<Rightarrow> nat \<Rightarrow> nat \<Rightarrow> nat \<Rightarrow> nat \<Rightarrow> fval" where
  "adherenceRF r sm cl b nParcels numNets numTasks netNum =
     clusterMeanRFs r sm cl b nParcels numNets numTasks netNum netNum"

definition deviationRF ::
  "rounding \<Rightarrow> (nat \<Rightarrow> summation) \<Rightarrow> clustered \<Rightarrow> boundaries \<Rightarrow> nat \<Rightarrow> nat \<Rightarrow> nat \<Rightarrow> nat \<Rightarrow> fval" where
  "deviationRF r sm cl b nParcels numNets numTasks netNum =
     fl_sub r (Fin 1) (adherenceRF r sm cl b nParcels numNets numTasks netNum)"

subsection \<open>What is printed\<close>

text \<open>
  A printed line is a progress line, or the report of the sanity check: the subject (in
  per-subject mode), the network and the percentage its clustered affinities add to.
\<close>

datatype message = Progress string | NotFullPercent "nat option" nat fval

definition taskFC_line :: "bool \<Rightarrow> message" where
  "taskFC_line useRestPartitionAdjuster =
     (if useRestPartitionAdjuster
      then Progress ''Task FC: estimated with combinedFC & nodes sorted/clustered per empirically-adjusted CAB-NP''
      else Progress ''Task FC: estimated with combinedFC & nodes sorted/clustered per original CAB-NP'')"

text \<open>Lines 129--133: one pass over the networks.\<close>

definition sanity_check ::
  "rounding \<Rightarrow> (nat \<Rightarrow> summation) \<Rightarrow> nat option \<Rightarrow> clustered \<Rightarrow> boundaries \<Rightarrow> nat \<Rightarrow> nat \<Rightarrow> nat \<Rightarrow> message list" where
  "sanity_check r sm subj cl b nParcels numNets numTasks =
     concat (tab numNets (\<lambda>netNum.
       (let t = fullPercentTest r sm cl b nParcels numNets numTasks netNum
        in if fl_lt t (Fin (r (999 / 10))) then [NotFullPercent subj netNum t] else [])))"

subsection \<open>The two modes\<close>

record mean_first_result =
  mf_deviationRFs :: "fval list"
  mf_clusteredAffinities :: "fval list list"
  mf_netAffinities :: "fval list list"
  mf_nodePrefVals :: "fval list list"
  mf_nodePrefIdxs :: "nat list list"
  mf_maxMembershipsTF :: "fval list list list"

record per_subject_result =
  deviationRFs :: "fval list list"
  clusteredAffinities :: "fval list list list"
  netAffinities :: "fval list list list"
  nodePrefVals :: "fval list list list"
  nodePrefIdxs :: "nat list list list"
  maxMembershipsTF :: "fval list list list list"

datatype deviation_result = MeanFirst mean_first_result | PerSubject per_subject_result

text \<open>The arrays of the mean-first branch (lines 49--142), once no step has failed.\<close>

definition mean_first_arrays ::
  "rounding \<Rightarrow> (nat \<Rightarrow> summation) \<Rightarrow> clustered \<Rightarrow> boundaries \<Rightarrow> nat \<Rightarrow> nat \<Rightarrow> nat \<Rightarrow> mean_first_result" where
  "mean_first_arrays r sm cl b nParcels numNets numTasks =
     \<lparr> mf_deviationRFs = tab numNets (deviationRF r sm cl b nParcels numNets numTasks),
       mf_clusteredAffinities =
         tab numNets (\<lambda>netNum. tab numNets (clusterMeanRFs r sm cl b nParcels numNets numTasks netNum)),
       mf_netAffinities =
         tab nParcels (\<lambda>nodeNum. tab numNets (thisNodeRF r sm cl numNets numTasks nodeNum)),
       mf_nodePrefVals = tab nParcels (\<lambda>nodeNum. tab numTasks (maxVal cl numNets nodeNum)),
       mf_nodePrefIdxs = tab nParcels (\<lambda>nodeNum. tab numTasks (maxIdx cl numNets nodeNum)),
       mf_maxMembershipsTF =
         tab nParcels (\<lambda>nodeNum. tab numTasks (\<lambda>taskNum.
           tab numNets (memberTF cl numNets nodeNum taskNum))) \<rparr>"

text \<open>
  The arrays of the per-subject branch (lines 145--246): the same entries with the
  subject as the last axis; \<open>cl subjNum\<close> is the clustered array of one subject.
\<close>

definition per_subject_arrays ::
  "rounding \<Rightarrow> (nat \<Rightarrow> summation) \<Rightarrow> (nat \<Rightarrow> clustered) \<Rightarrow> boundaries \<Rightarrow> nat \<Rightarrow> nat \<Rightarrow> nat \<Rightarrow> nat \<Rightarrow> per_subject_result" where
  "per_subject_arrays r sm cl b nParcels numNets numTasks numSubjs =
     \<lparr> deviationRFs =
         tab numNets (\<lambda>netNum. tab numSubjs (\<lambda>subjNum.
           deviationRF r sm (cl subjNum) b nParcels numNets numTasks netNum)),
       clusteredAffinities =
         tab numNets (\<lambda>netNum. tab numNets (\<lambda>net2. tab numSubjs (\<lambda>subjNum.
           clusterMeanRFs r sm (cl subjNum) b nParcels numNets numTasks netNum net2))),
       netAffinities =
         tab nParcels (\<lambda>nodeNum. tab numNets (\<lambda>netNum. tab numSubjs (\<lambda>subjNum.
           thisNodeRF r sm (cl subjNum) numNets numTasks nodeNum netNum))),
       nodePrefVals =
         tab nParcels (\<lambda>nodeNum. tab numTasks (\<lambda>taskNum. tab numSubjs (\<lambda>subjNum.
           maxVal (cl subjNum) numNets nodeNum taskNum))),
       nodePrefIdxs =
         tab nParcels (\<lambda>nodeNum. tab numTasks (\<lambda>taskNum. tab numSubjs (\<lambda>subjNum.
           maxIdx (cl subjNum) numNets nodeNum taskNum))),
       maxMembershipsTF =
         tab nParcels (\<lambda>nodeNum. tab numTasks (\<lambda>taskNum. tab numNets (\<lambda>netNum.
           tab numSubjs (\<lambda>subjNum. memberTF (cl subjNum) numNets nodeNum taskNum netNum)))) \<rparr>"

text \<open>
  The progress lines, in the order of the source: the line that opens the clustering and
  the line of its first iteration (printed when the loop runs at all), the line that
  opens the search for the maxima, the four lines up to the sanity check, and the two
  lines after it. \<open>mf\<close> tells the mean-first branch from the per-subject one.
\<close>

definition clustering_lines :: "bool \<Rightarrow> bool \<Rightarrow> bool \<Rightarrow> message list" where
  "clustering_lines mf runs useRestPartitionAdjuster =
     [Progress (if mf
        then ''Clustering FC values down to the network level (weighted average) --> node x network x task FC matrices...''
        else ''Clustering FC values down to the network level (weighted average) --> node x network x task x subject FC matrices...'')]
     @ (if runs then [taskFC_line useRestPartitionAdjuster] else [])"

definition maxima_line :: "bool \<Rightarrow> message" where
  "maxima_line mf =
     Progress (if mf
       then ''Finding max FC values and their indices (e.g., connecting node number) --> node x task preference matrices...''
       else ''Finding max FC values and their indices (e.g., connecting node number) --> node x task x subject preference matrices...'')"

definition lines_before_check :: "bool \<Rightarrow> message list" where
  "lines_before_check mf =
     [Progress (if mf
        then ''Iterating over all networks to test if the preference index (ie max from above) is a member of that network --> node x task x network binarized affinity matrices...''
        else ''Iterating over all networks to test if the preference index (ie max from above) is a member of that network --> node x task x network x subject binarized affinity matrices...''),
      Progress ''Finding affinity scores (relative frequencies) for all connecting networks --> node x network x relative frequency NPA matrices...'',
      Progress (if mf
        then ''Clustering ROIs into NOIs --> network x network relative frequency NPA matrices...''
        else ''Clustering ROIs into NOIs --> network x network x subject relative frequency NPA matrices...''),
      Progress ''Sanity check that all clustered affinities add to 100%...'']"

definition lines_after_check :: "bool \<Rightarrow> message list" where
  "lines_after_check mf =
     [Progress (if mf
        then ''Pulling out adherence to pre-defined network partition --> network NPA matrices...''
        else ''Pulling out adherence to pre-defined network partition --> network x subject NPA matrices...''),
      Progress (if mf
        then ''Computing deviation (NPD) --> network NPD matrices...''
        else ''Computing deviation (NPD) --> network x subject NPD matrices...'')]"

text \<open>
  The function. It returns what it printed and either the error that stopped it or its
  arrays. The failures are numpy's: IndexError from the re-ordering inside the clustering
  loop (reached when the loop runs at all), and ValueError from \<open>np.max\<close> of an empty
  vector, when there is no network. \<open>check\<close> switches lines 127--133 and 229--236 (the
  sanity check) on; the function of the source is \<open>deviation\<close>, with the check.
\<close>

definition deviation_body ::
  "bool \<Rightarrow> rounding \<Rightarrow> (nat \<Rightarrow> summation) \<Rightarrow> array4 \<Rightarrow> boundaries \<Rightarrow> nat list \<Rightarrow> bool \<Rightarrow> bool \<Rightarrow> boundaries \<Rightarrow> nat list \<Rightarrow>
   message list \<times> (error + deviation_result)" where
  "deviation_body check r sm fcArray netBoundaries nodeOrder useMeanFirst useRestPartitionAdjuster
       netBoundariesNew nodeOrderNew =
     (case fcArray of Array4 nParcels n1 numTasks numSubjs fc \<Rightarrow>
      let boundariesHere = (if useRestPartitionAdjuster then netBoundariesNew else netBoundaries);
          numNets = length boundariesHere;
          idx = sortIndex nodeOrder useRestPartitionAdjuster nodeOrderNew;
          ok = index_ok nParcels n1 nodeOrder useRestPartitionAdjuster nodeOrderNew
      in
      if useMeanFirst then
        (let runs = (0 < numTasks);
             log1 = clustering_lines True runs useRestPartitionAdjuster;
             log2 = log1 @ [maxima_line True];
             cl = (\<lambda>nodeNum netNum ruleSet.
                     clusterMeanPooled r sm fc numSubjs boundariesHere idx nodeNum netNum ruleSet)
         in
         if runs \<and> \<not> ok then (log1, Inl IndexError)
         else if runs \<and> 0 < nParcels \<and> numNets = 0 then (log2, Inl ValueError)
         else
           (log2 @ lines_before_check True
            @ (if check then sanity_check r sm None cl boundariesHere nParcels numNets numTasks else [])
            @ lines_after_check True,
            Inr (MeanFirst (mean_first_arrays r sm cl boundariesHere nParcels numNets numTasks))))
      else
        (let runs = (0 < numSubjs \<and> 0 < numTasks);
             log1 = clustering_lines False runs useRestPartitionAdjuster;
             log2 = log1 @ [maxima_line False];
             cl = (\<lambda>subjNum nodeNum netNum taskNum.
                     clusterMean r sm fc boundariesHere idx subjNum nodeNum netNum taskNum)
         in
         if runs \<and> \<not> ok then (log1, Inl IndexError)
         else if runs \<and> 0 < nParcels \<and> numNets = 0 then (log2, Inl ValueError)
         else
           (log2 @ lines_before_check False
            @ (if check
               then concat (tab numSubjs (\<lambda>subjNum.
                      sanity_check r (per_subject_sums sm) (Some subjNum) (cl subjNum) boundariesHere nParcels numNets numTasks))
               else [])
            @ lines_after_check False,
            Inr (PerSubject (per_subject_arrays r (per_subject_sums sm) cl boundariesHere nParcels numNets numTasks numSubjs)))))"

definition deviation ::
  "rounding \<Rightarrow> (nat \<Rightarrow> summation) \<Rightarrow> array4 \<Rightarrow> boundaries \<Rightarrow> nat list \<Rightarrow> bool \<Rightarrow> bool \<Rightarrow> boundaries \<Rightarrow> nat list \<Rightarrow>
   message list \<times> (error + deviation_result)" where
  "deviation = deviation_body True"


text \<open>The lines of the sanity check among the printed lines.\<close>

fun is_report :: "message \<Rightarrow> bool" where
  "is_report (NotFullPercent subj netNum t) = True"
| "is_report (Progress s) = False"

section \<open>restPartitionAdjuster\<close>

text \<open>
  \<^verbatim>\<open>src/restPartitionAdjuster.py\<close>, on a nodes x nodes x subjects array.

  \<open>np.argsort\<close> is called with its default \<open>kind\<close>, for which numpy promises a
  sorting permutation and no more (the default is not a stable sort). The sort is
  therefore a parameter \<open>srt\<close> of the model; \<open>argsort_spec\<close> is numpy's promise, and
  \<open>argsort_insertion\<close> is the insertion sort numpy's default runs on short vectors.
\<close>

definition argsort_spec :: "(fval list \<Rightarrow> nat list) \<Rightarrow> bool" where
  "argsort_spec srt =
     (\<forall>v. mset (srt v) = mset [0..<length v] \<and>
          sorted_wrt (\<lambda>i j. \<not> sort_lt (v ! j) (v ! i)) (srt v))"

text \<open>A sort is stable when equal keys keep the order of their positions.\<close>

definition argsort_stable :: "(fval list \<Rightarrow> nat list) \<Rightarrow> bool" where
  "argsort_stable srt =
     (\<forall>v. sorted_wrt (\<lambda>i j. v ! i = v ! j \<longrightarrow> i < j) (srt v))"

fun insert_idx :: "fval list \<Rightarrow> nat \<Rightarrow> nat list \<Rightarrow> nat list" where
  "insert_idx v i [] = [i]"
| "insert_idx v i (j # js) =
     (if sort_lt (v ! i) (v ! j) then i # j # js else j # insert_idx v i js)"

definition argsort_insertion :: "fval list \<Rightarrow> nat list" where
  "argsort_insertion v = foldl (\<lambda>acc i. insert_idx v i acc) [] [0..<length v]"

subsection \<open>Preferences (lines 27--44)\<close>

text \<open>\<open>np.arctanh\<close> and \<open>np.tanh\<close> with their values at and beyond the ends.\<close>

definition np_arctanh :: "rounding \<Rightarrow> fval \<Rightarrow> fval" where
  "np_arctanh r x =
     (case x of
        Fin a \<Rightarrow> (if \<bar>a\<bar> < 1 then Fin (r (artanh a))
                  else if a = 1 then PInf else if a = - 1 then NInf else NaN)
      | _ \<Rightarrow> NaN)"

definition np_tanh :: "rounding \<Rightarrow> fval \<Rightarrow> fval" where
  "np_tanh r x =
     (case x of Fin a \<Rightarrow> Fin (r (tanh a)) | PInf \<Rightarrow> Fin 1 | NInf \<Rightarrow> Fin (- 1) | NaN \<Rightarrow> NaN)"

text \<open>
  \<open>subjSortedCA\<close>: the copy of the subject's slice, re-ordered by \<open>nodeOrder\<close> on both
  axes, with NaN written on its diagonal.
\<close>

definition subjSortedCA ::
  "(nat \<Rightarrow> nat \<Rightarrow> nat \<Rightarrow> fval) \<Rightarrow> nat list \<Rightarrow> nat \<Rightarrow> nat \<Rightarrow> nat \<Rightarrow> fval" where
  "subjSortedCA fc nodeOrder subjNum row col =
     (if row = col then NaN else fc (nodeOrder ! row) (nodeOrder ! col) subjNum)"

definition tempVec ::
  "rounding \<Rightarrow> (nat \<Rightarrow> summation) \<Rightarrow> (nat \<Rightarrow> nat \<Rightarrow> nat \<Rightarrow> fval) \<Rightarrow> boundaries \<Rightarrow> nat list \<Rightarrow> nat \<Rightarrow> nat \<Rightarrow> fval list" where
  "tempVec r sm fc netBoundaries nodeOrder subjNum nodeNum =
     tab (length netBoundaries) (\<lambda>netNum.
       np_tanh r (np_nanmean r (sm 40) (map (np_arctanh r)
         (slice (startNode netBoundaries netNum) (endNode netBoundaries netNum)
            (tab (length nodeOrder) (subjSortedCA fc nodeOrder subjNum nodeNum))))))"

text \<open>
  \<open>prefIdx = np.argsort(tempVec)[::-1]\<close> and \<open>prefIdx[0]\<close>: the last entry of the
  sorted order.
\<close>

definition prefIdx0 ::
  "(fval list \<Rightarrow> nat list) \<Rightarrow> rounding \<Rightarrow> (nat \<Rightarrow> summation) \<Rightarrow>
   (nat \<Rightarrow> nat \<Rightarrow> nat \<Rightarrow> fval) \<Rightarrow> boundaries \<Rightarrow> nat list \<Rightarrow>
   nat \<Rightarrow> nat \<Rightarrow> nat" where
  "prefIdx0 srt r sm fc netBoundaries nodeOrder subjNum nodeNum =
     last (srt (tempVec r sm fc netBoundaries nodeOrder subjNum nodeNum))"

definition restPreferences_of ::
  "(fval list \<Rightarrow> nat list) \<Rightarrow> rounding \<Rightarrow> (nat \<Rightarrow> summation) \<Rightarrow>
   array3 \<Rightarrow> boundaries \<Rightarrow> nat list \<Rightarrow> nat list list" where
  "restPreferences_of srt r sm fcArray netBoundaries nodeOrder =
     (case fcArray of Array3 nParcels n1 numSubjs fc \<Rightarrow>
        tab nParcels (\<lambda>nodeNum. tab numSubjs (\<lambda>subjNum.
          prefIdx0 srt r sm fc netBoundaries nodeOrder subjNum nodeNum)))"

text \<open>
  The first loop fails with IndexError when, with at least one subject, an entry of
  \<open>nodeOrder\<close> is outside the array, the re-ordered array has fewer rows than there are
  nodes, or the sorted order of some \<open>tempVec\<close> is empty (there is no network).
\<close>

definition preferences_ok ::
  "(fval list \<Rightarrow> nat list) \<Rightarrow> rounding \<Rightarrow> (nat \<Rightarrow> summation) \<Rightarrow>
   array3 \<Rightarrow> boundaries \<Rightarrow> nat list \<Rightarrow> bool" where
  "preferences_ok srt r sm fcArray netBoundaries nodeOrder =
     (case fcArray of Array3 nParcels n1 numSubjs fc \<Rightarrow>
        numSubjs = 0 \<or>
        (list_all (\<lambda>x. x < nParcels \<and> x < n1) nodeOrder \<and> nParcels \<le> length nodeOrder \<and>
         list_all (\<lambda>nodeNum. list_all (\<lambda>subjNum.
             srt (tempVec r sm fc netBoundaries nodeOrder subjNum nodeNum) \<noteq> [])
           [0..<numSubjs]) [0..<nParcels]))"

subsection \<open>Consensus (lines 46--62)\<close>

text \<open>
  \<open>scipy.stats.mode\<close> of one row: the unique values are visited in increasing order
  and a value replaces the candidate when it is strictly more frequent, so of several
  most frequent values the smallest is returned, with its count.
\<close>

fun mode_scan :: "nat list \<Rightarrow> nat \<Rightarrow> nat \<Rightarrow> nat list \<Rightarrow> nat \<times> nat" where
  "mode_scan xs best cnt [] = (best, cnt)"
| "mode_scan xs best cnt (v # vs) =
     (if cnt < count_list xs v then mode_scan xs v (count_list xs v) vs
      else mode_scan xs best cnt vs)"

definition stats_mode :: "nat list \<Rightarrow> nat \<times> nat" where
  "stats_mode xs = mode_scan xs 0 0 (sort (remdups xs))"

definition restMode :: "nat list list \<Rightarrow> nat \<Rightarrow> nat" where
  "restMode prefs nodeNum = fst (stats_mode (prefs ! nodeNum))"

definition restModeCount :: "nat list list \<Rightarrow> nat \<Rightarrow> nat" where
  "restModeCount prefs nodeNum = snd (stats_mode (prefs ! nodeNum))"

definition percentAgree_of :: "rounding \<Rightarrow> nat \<Rightarrow> nat list list \<Rightarrow> nat \<Rightarrow> fval" where
  "percentAgree_of r numSubjs prefs nodeNum =
     fl_div r (Fin (real (restModeCount prefs nodeNum))) (Fin (real numSubjs))"

text \<open>
  Lines 58--62 for one node of the range of network \<open>netNum\<close>: below one half the node
  keeps \<open>netNum\<close>, from one half on it takes the mode (and neither branch runs when the
  comparison is with NaN).
\<close>

definition decide :: "rounding \<Rightarrow> nat \<Rightarrow> nat list list \<Rightarrow> nat \<Rightarrow> nat \<Rightarrow> nat list \<Rightarrow> nat list" where
  "decide r numSubjs prefs netNum nodeNum rc =
     (let thisNode = percentAgree_of r numSubjs prefs nodeNum in
      if fl_lt thisNode (Fin (1 / 2)) then rc[nodeNum := netNum]
      else if fl_le (Fin (1 / 2)) thisNode then rc[nodeNum := restMode prefs nodeNum]
      else rc)"

text \<open>Lines 53--62: the loop over the networks and over the nodes of each range.\<close>

definition restConsensus_of ::
  "rounding \<Rightarrow> nat \<Rightarrow> nat \<Rightarrow> nat list list \<Rightarrow> boundaries \<Rightarrow> nat list" where
  "restConsensus_of r nParcels numSubjs prefs netBoundaries =
     fold (\<lambda>netNum rc.
             fold (decide r numSubjs prefs netNum)
               [startNode netBoundaries netNum ..< endNode netBoundaries netNum] rc)
       [0..<length netBoundaries] (replicate nParcels 0)"

text \<open>
  \<open>percentAgree[nodeNum]\<close> raises IndexError for a node of a range that lies beyond the
  array.
\<close>

definition ranges_ok :: "nat \<Rightarrow> boundaries \<Rightarrow> bool" where
  "ranges_ok nParcels netBoundaries =
     list_all (\<lambda>netNum. endNode netBoundaries netNum \<le> startNode netBoundaries netNum
                        \<or> endNode netBoundaries netNum \<le> nParcels)
       [0..<length netBoundaries]"

subsection \<open>The new partition (lines 64--74)\<close>

definition finder :: "nat list \<Rightarrow> nat \<Rightarrow> nat list" where
  "finder nodeIndicesNew netNum =
     filter (\<lambda>i. nodeIndicesNew ! i = netNum) [0..<length nodeIndicesNew]"

text \<open>\<open>np.min\<close> and \<open>np.max\<close> of \<open>finder\<close> (increasing); an empty one raises ValueError.\<close>

definition boundary_row :: "nat list \<Rightarrow> nat \<Rightarrow> nat \<times> nat \<times> nat" where
  "boundary_row nodeIndicesNew netNum =
     (let f = finder nodeIndicesNew netNum
      in (hd f, last f, length [hd f ..< last f + 1]))"

record rpa_result =
  netBoundariesNew :: boundaries
  nodeOrderNew :: "nat list"
  restPreferences :: "nat list list"
  percentAgree :: "fval list"
  restConsensus :: "nat list"
  nodeIndicesNew :: "nat list"

definition restPartitionAdjuster ::
  "(fval list \<Rightarrow> nat list) \<Rightarrow> rounding \<Rightarrow> (nat \<Rightarrow> summation) \<Rightarrow>
   array3 \<Rightarrow> boundaries \<Rightarrow> nat list \<Rightarrow> error + rpa_result" where
  "restPartitionAdjuster srt r sm fcArray netBoundaries nodeOrder =
     (case fcArray of Array3 nParcels n1 numSubjs fc \<Rightarrow>
      let numNets = length netBoundaries;
          prefs = restPreferences_of srt r sm fcArray netBoundaries nodeOrder;
          rc = restConsensus_of r nParcels numSubjs prefs netBoundaries;
          sorted_rc = sort rc
      in
      if \<not> preferences_ok srt r sm fcArray netBoundaries nodeOrder then Inl IndexError
      else if numSubjs = 0 \<and> 0 < nParcels then Inl IndexError
      else if \<not> ranges_ok nParcels netBoundaries then Inl IndexError
      else if \<not> list_all (\<lambda>netNum. finder sorted_rc netNum \<noteq> []) [0..<numNets]
        then Inl ValueError
      else Inr \<lparr> netBoundariesNew = tab numNets (boundary_row sorted_rc),
                 nodeOrderNew = srt (map (\<lambda>k. Fin (real k)) rc),
                 restPreferences = prefs,
                 percentAgree = tab nParcels (percentAgree_of r numSubjs prefs),
                 restConsensus = rc,
                 nodeIndicesNew = sorted_rc \<rparr>)"

text \<open>
  The value lines 58--62 leave at node \<open>p\<close> in the pass of network \<open>netNum\<close>, given
  the value \<open>old\<close> found there; and the inner loop of one network.
\<close>

definition decided :: "rounding \<Rightarrow> nat \<Rightarrow> nat list list \<Rightarrow> nat \<Rightarrow> nat \<Rightarrow> nat \<Rightarrow> nat" where
  "decided r numSubjs prefs netNum p old =
     (if fl_lt (percentAgree_of r numSubjs prefs p) (Fin (1 / 2)) then netNum
      else if fl_le (Fin (1 / 2)) (percentAgree_of r numSubjs prefs p) then restMode prefs p
      else old)"

definition net_step :: "rounding \<Rightarrow> nat \<Rightarrow> nat list list \<Rightarrow> boundaries \<Rightarrow> nat \<Rightarrow> nat list \<Rightarrow> nat list" where
  "net_step r numSubjs prefs b netNum rc =
     fold (decide r numSubjs prefs netNum) [startNode b netNum ..< endNode b netNum] rc"

text \<open>
  An example with four nodes, three subjects and the networks \<open>{0, 1}\<close>, \<open>{2}\<close>, \<open>{3}\<close>.
  Node 0 prefers a different network in each subject; node 1 prefers network 1 in all
  three; nodes 2 and 3 have no edge.
\<close>

definition rest_example :: array3 where
  "rest_example = Array3 4 4 3 (\<lambda>i j s. Fin (
      if i = 0 then [[0, 1/2, 1/4, 1/8], [0, 1/8, 1/2, 1/4], [0, 1/8, 1/4, 1/2]] ! s ! j
      else if i = 1 then [1/8, 0, 1/2, 1/4] ! j
      else 0))"

definition rest_example_boundaries :: boundaries where
  "rest_example_boundaries = [(0, 1, 2), (2, 2, 1), (3, 3, 1)]"

text \<open>
  What the caller owes \<open>restPartitionAdjuster\<close>: \<open>nodeOrder\<close> indexes the array and
  covers its nodes, there is a subject and a network, and the ranges of \<open>netBoundaries\<close>
  lie inside the array.
\<close>

definition rpa_inputs_ok :: "array3 \<Rightarrow> boundaries \<Rightarrow> nat list \<Rightarrow> bool" where
  "rpa_inputs_ok fcArray netBoundaries nodeOrder =
     (case fcArray of Array3 nParcels n1 numSubjs fc \<Rightarrow>
        list_all (\<lambda>x. x < nParcels \<and> x < n1) nodeOrder \<and> nParcels \<le> length nodeOrder \<and>
        0 < numSubjs \<and> netBoundaries \<noteq> [] \<and> ranges_ok nParcels netBoundaries)"

text \<open>The consensus assignment the function computes before it rebuilds the partition.\<close>

definition consensus_of ::
  "(fval list \<Rightarrow> nat list) \<Rightarrow> rounding \<Rightarrow> (nat \<Rightarrow> summation) \<Rightarrow>
   array3 \<Rightarrow> boundaries \<Rightarrow> nat list \<Rightarrow> nat list" where
  "consensus_of srt r sm fcArray netBoundaries nodeOrder =
     (case fcArray of Array3 nParcels n1 numSubjs fc \<Rightarrow>
        restConsensus_of r nParcels numSubjs
          (restPreferences_of srt r sm fcArray netBoundaries nodeOrder) netBoundaries)"

text \<open>
  Three nodes, one subject, the networks \<open>{0, 1}\<close> and \<open>{2}\<close>: nodes 0 and 1 are tied
  more strongly to node 2 than to each other.
\<close>

definition rest_example_empty :: array3 where
  "rest_example_empty = Array3 3 3 1 (\<lambda>i j s. Fin ([[0, 1/8, 1/2], [1/8, 0, 1/2], [1/2, 1/2, 0]] ! i ! j))"

text \<open>The number of nodes whose consensus network is below \<open>k\<close>.\<close>

definition below :: "nat list \<Rightarrow> nat \<Rightarrow> nat" where
  "below rc k = length (filter (\<lambda>x. x < k) rc)"

section \<open>Theorems: summations\<close>

lemma sum_tree_zeros:
  assumes "sum_tree r M v" "r 0 = 0" "\<forall>x\<in>#M. x = Fin 0"
  shows "v = Fin 0"
  using assms by (induction rule: sum_tree.induct) auto

lemma exact_sum_single: "exact_sum {#x#} = x"
  by (cases x) (simp_all add: exact_sum_def fin_part_def)

lemma exact_sum_union: "fl_add id (exact_sum A) (exact_sum B) = exact_sum (A + B)"
  by (auto simp: exact_sum_def)

lemma sum_tree_exact: "sum_tree id M v \<Longrightarrow> v = exact_sum M"
proof (induction rule: sum_tree.induct)
  case empty
  show ?case by (simp add: exact_sum_def)
next
  case (leaf x)
  show ?case by (simp add: exact_sum_single)
next
  case (node A a B b)
  then show ?case using exact_sum_union[of A B] by (simp add: id_def)
qed

lemma sum_spec_exact: "sum_spec id s \<Longrightarrow> s xs = exact_sum (mset xs)"
  by (simp add: sum_spec_def sum_tree_exact)

lemma sum_spec_zeros:
  assumes "sum_spec r s" "r 0 = 0" "\<forall>x\<in>set xs. x = Fin 0"
  shows "s xs = Fin 0"
  using sum_tree_zeros[of r "mset xs" "s xs"] assms by (simp add: sum_spec_def)

lemma foldl_sum_tree:
  "sum_tree r A a \<Longrightarrow> sum_tree r (A + mset xs) (foldl (fl_add r) a xs)"
proof (induction xs arbitrary: A a)
  case Nil
  then show ?case by simp
next
  case (Cons x xs)
  have "sum_tree r (A + {#x#}) (fl_add r a x)"
    by (rule sum_tree.node[OF Cons.prems sum_tree.leaf])
  from Cons.IH[OF this] show ?case by (simp add: ac_simps)
qed

lemma sum_sequential_spec: "sum_spec r (sum_sequential r)"
  unfolding sum_spec_def sum_sequential_def
  using foldl_sum_tree[OF sum_tree.empty] by simp

text \<open>The rounding of a value whose binade is known.\<close>

lemma powr_int_diff:
  "(2::real) powr (of_int (int k - int j)) = 2 ^ k / 2 ^ j"
proof -
  have "(2::real) powr (of_int (int k - int j)) = 2 powr (real k - real j)" by simp
  also have "\<dots> = 2 powr (real k) / 2 powr (real j)" by (rule powr_diff)
  also have "\<dots> = 2 ^ k / 2 ^ j" by (simp only: powr_realpow[of 2, simplified])
  finally show ?thesis .
qed

lemma round_binary64_dyadic:
  assumes "2 ^ 52 \<le> \<bar>x\<bar> * 2 ^ j" "\<bar>x\<bar> * 2 ^ j < 2 ^ 53"
  shows "round_binary64 x = of_int (round_half_even (x * 2 ^ j)) / 2 ^ j"
proof -
  have x0: "x \<noteq> 0" using assms(1) by auto
  have p: "(2::real) powr (of_int (int 52 - int j)) = 2 ^ 52 / 2 ^ j"
    by (rule powr_int_diff)
  have p1: "(2::real) powr (of_int (int 53 - int j)) = 2 ^ 53 / 2 ^ j"
    by (rule powr_int_diff)
  have pos: "(0::real) < 2 ^ j" by simp
  have l: "2 ^ 52 / 2 ^ j \<le> \<bar>x\<bar>"
    using assms(1) pos by (simp only: pos_divide_le_eq)
  have u: "\<bar>x\<bar> < 2 ^ 53 / 2 ^ j"
    using assms(2) pos by (simp only: pos_less_divide_eq)
  have "\<lfloor>log 2 \<bar>x\<bar>\<rfloor> = int 52 - int j"
  proof (subst floor_log_eq_powr_iff)
    show "0 < \<bar>x\<bar>" using x0 by simp
    show "(1::real) < 2" by simp
    have s: "int 52 - int j + 1 = int 53 - int j" by simp
    show "2 powr of_int (int 52 - int j) \<le> \<bar>x\<bar> \<and> \<bar>x\<bar> < 2 powr of_int (int 52 - int j + 1)"
      unfolding s p p1 using l u by (rule conjI)
  qed
  then have e: "\<lfloor>log 2 \<bar>x\<bar>\<rfloor> - 52 = - int j" by simp
  have q: "(2::real) powr real j = 2 ^ j" by (simp only: powr_realpow[of 2, simplified])
  have q': "(2::real) powr (- real j) = 1 / 2 ^ j"
    by (simp only: powr_minus q inverse_eq_divide)
  have "round_binary64 x = of_int (round_half_even (x * 2 powr (- of_int (- int j)))) * 2 powr (of_int (- int j))"
    using x0 unfolding round_binary64_def e by (simp only: Let_def if_False)
  also have "- of_int (- int j) = real j" by simp
  also have "of_int (- int j) = - real j" by simp
  finally show ?thesis by (simp only: q q' times_divide_eq_right mult_1_right)
qed

section \<open>Theorems: participation\_coefficient\_sign\<close>

lemma nansum_zero_or_nan:
  assumes "sum_spec r s" "rounding_ok r" "\<forall>x\<in>set xs. x = Fin 0 \<or> x = NaN"
  shows "np_nansum s xs = Fin 0"
  unfolding np_nansum_def
  by (rule sum_spec_zeros[OF assms(1)]) (use assms(2,3) in \<open>auto simp: replace_nan_def rounding_ok_def\<close>)

lemma vecHere_own:
  assumes ok: "rounding_ok r" and rep: "representable r (f i j)" and c: "1 \<le> c"
    and conf: "f i j \<noteq> Fin 0 \<and> f i j \<noteq> NaN \<longrightarrow> affil ! j = c"
  shows "vecHere r f affil c i j = f i j"
proof (cases "f i j")
  case (Fin a)
  then show ?thesis using ok rep c conf
    by (auto simp: vecHere_def netAffilMask_def nonzero_def bool_fval_def rounding_ok_def representable_def)
next
  case PInf
  then show ?thesis using conf
    by (simp add: vecHere_def netAffilMask_def nonzero_def bool_fval_def inf_of_sign_def)
next
  case NInf
  then show ?thesis using conf
    by (simp add: vecHere_def netAffilMask_def nonzero_def bool_fval_def inf_of_sign_def)
next
  case NaN
  then show ?thesis by (simp add: vecHere_def)
qed

lemma vecHere_other:
  assumes ok: "rounding_ok r" and k: "k \<noteq> c" "1 \<le> k"
    and conf: "f i j \<noteq> Fin 0 \<and> f i j \<noteq> NaN \<longrightarrow> affil ! j = c"
  shows "vecHere r f affil k i j = Fin 0 \<or> vecHere r f affil k i j = NaN"
proof (cases "f i j")
  case (Fin a)
  then show ?thesis using ok k conf
    by (auto simp: vecHere_def netAffilMask_def nonzero_def bool_fval_def rounding_ok_def)
next
  case PInf
  then show ?thesis using conf k
    by (simp add: vecHere_def netAffilMask_def nonzero_def bool_fval_def inf_of_sign_def)
next
  case NInf
  then show ?thesis using conf k
    by (simp add: vecHere_def netAffilMask_def nonzero_def bool_fval_def inf_of_sign_def)
next
  case NaN
  then show ?thesis by (simp add: vecHere_def)
qed

lemma sumVec_own:
  assumes "rounding_ok r" "\<forall>j<m. representable r (f i j)" "1 \<le> c"
    "\<forall>j<m. f i j \<noteq> Fin 0 \<and> f i j \<noteq> NaN \<longrightarrow> affil ! j = c"
  shows "sumVec r sm f affil m c i = np_nansum (sm 36) (tab m (\<lambda>j. f i j))"
proof -
  have "tab m (\<lambda>j. vecHere r f affil c i j) = tab m (\<lambda>j. f i j)"
    unfolding tab_def using assms by (intro map_cong refl vecHere_own) auto
  then show ?thesis by (simp add: sumVec_def)
qed

lemma sumVec_other:
  assumes "sum_spec r (sm 36)" "rounding_ok r" "k \<noteq> c" "1 \<le> k"
    "\<forall>j<m. f i j \<noteq> Fin 0 \<and> f i j \<noteq> NaN \<longrightarrow> affil ! j = c"
  shows "sumVec r sm f affil m k i = Fin 0"
  unfolding sumVec_def
  by (rule nansum_zero_or_nan[OF assms(1,2)])
     (use assms vecHere_other[of r k c f i _ affil] in \<open>auto simp: tab_def\<close>)

lemma nansum_agree:
  assumes "s = s' \<or> (sum_spec id s \<and> sum_spec id s')"
  shows "np_nansum s xs = np_nansum s' xs"
  using assms by (auto simp: np_nansum_def sum_spec_exact)

lemma square_add_zero:
  assumes "rounding_ok r"
  shows "fl_add r (fl_square r x) (Fin 0) = fl_square r x" "fl_add r (Fin 0) (fl_square r x) = fl_square r x"
  using assms by (cases x; simp add: fl_square_def rounding_ok_def inf_of_sign_def)+

lemma foldl_add_zero_stable:
  assumes "fl_add r v (Fin 0) = v" "\<forall>k\<in>set ks. g k = Fin 0"
  shows "foldl (\<lambda>acc k. fl_add r acc (g k)) v ks = v"
  using assms by (induction ks) auto

lemma arrHere_confined:
  assumes sp: "sum_spec r (sm 36)" and ok: "rounding_ok r"
    and rep: "\<forall>j<m. representable r (f i j)"
    and c: "c < numNets"
    and conf: "\<forall>j<m. f i j \<noteq> Fin 0 \<and> f i j \<noteq> NaN \<longrightarrow> affil ! j = int (Suc c)"
  shows "arrHere r sm f affil m numNets i = fl_square r (np_nansum (sm 36) (tab m (\<lambda>j. f i j)))"
proof -
  let ?g = "\<lambda>k. fl_square r (sumVec r sm f affil m (int (Suc k)) i)"
  let ?S = "fl_square r (np_nansum (sm 36) (tab m (\<lambda>j. f i j)))"
  have other: "?g k = Fin 0" if "k \<noteq> c" for k
  proof -
    have "sumVec r sm f affil m (int (Suc k)) i = Fin 0"
      by (rule sumVec_other[where c="int (Suc c)" and m=m and sm=sm and r=r, OF sp ok]) (use that conf in auto)
    then show ?thesis using ok by (simp add: fl_square_def rounding_ok_def)
  qed
  have own: "?g c = ?S"
    using sumVec_own[where c="int (Suc c)" and m=m and f=f and i=i and affil=affil and sm=sm, OF ok rep] conf
    by simp
  have split: "[0..<numNets] = [0..<c] @ c # [Suc c..<numNets]"
  proof -
    have "[0..<numNets] = [0..<c] @ [c..<numNets]"
      using c upt_add_eq_append[of 0 c "numNets - c"] by simp
    then show ?thesis using c by (simp add: upt_conv_Cons)
  qed
  have z0: "fl_add r (Fin 0) (Fin 0) = Fin 0" using ok by (simp add: rounding_ok_def)
  have "arrHere r sm f affil m numNets i = foldl (\<lambda>acc k. fl_add r acc (?g k)) (Fin 0) [0..<numNets]"
    by (simp add: arrHere_def foldl_map)
  also have "\<dots> = foldl (\<lambda>acc k. fl_add r acc (?g k))
       (fl_add r (foldl (\<lambda>acc k. fl_add r acc (?g k)) (Fin 0) [0..<c]) (?g c)) [Suc c..<numNets]"
    by (subst split) simp
  also have "foldl (\<lambda>acc k. fl_add r acc (?g k)) (Fin 0) [0..<c] = Fin 0"
    by (rule foldl_add_zero_stable[OF z0]) (use other in auto)
  also have "fl_add r (Fin 0) (?g c) = ?S"
    by (simp only: own square_add_zero[OF ok])
  also have "foldl (\<lambda>acc k. fl_add r acc (?g k)) ?S [Suc c..<numNets] = ?S"
    by (rule foldl_add_zero_stable[OF square_add_zero(1)[OF ok]]) (use other in auto)
  finally show ?thesis .
qed

lemma partCoef_zero_degree:
  "degreeOfROIs sm f m i = Fin 0 \<Longrightarrow> partCoef r sm f affil m numNets i = Fin 0"
  by (simp add: partCoef_def Let_def)

lemma partCoef_arr_eq_square:
  assumes ok: "rounding_ok r"
    and arr: "arrHere r sm f affil m numNets i = fl_square r (degreeOfROIs sm f m i)"
  shows "partCoef r sm f affil m numNets i = Fin 0"
proof (cases "fl_square r (degreeOfROIs sm f m i)")
  case (Fin q)
  then show ?thesis using ok arr
    by (auto simp: partCoef_def Let_def isnan_def fl_sub_def rounding_ok_def)
next
  case PInf
  then show ?thesis using arr by (simp add: partCoef_def Let_def isnan_def fl_sub_def)
next
  case NInf
  then show ?thesis using arr by (simp add: partCoef_def Let_def isnan_def fl_sub_def)
next
  case NaN
  then show ?thesis using arr by (simp add: partCoef_def Let_def isnan_def fl_sub_def)
qed

text \<open>
  Claim C9 (amended). For every connectivity array and affiliation vector from which
  \<open>participation_coefficient_sign\<close> returns, the coefficient of node \<open>i\<close> is exactly
  0 when the total degree of the node (the \<open>nansum\<close> of its row, as line 27 computes
  it) is zero. It is exactly 0 for a node whose edges that are neither 0 nor NaN all lie
  in its own module (a module numbered within \<open>1 .. numNets\<close>) when the two row sums of
  lines 27 and 36 are added by the same summation, under any rounding that keeps 0, 1
  and the entries of the row, or when the arithmetic is exact. (In double precision, with
  the two sums added in different orders, the coefficient of such a node can be a
  non-zero number of the size of the rounding error: \<open>participation_not_zero\<close>.)
\<close>

theorem participation_zero:
  assumes "participation_coefficient_sign r sm (Array2 n m f) affil numNets = Inr pc"
    and "i < n"
    and "degreeOfROIs sm f m i = Fin 0 \<or>
         (rounding_ok r \<and> sum_spec r (sm 36) \<and> (\<forall>j<m. representable r (f i j)) \<and>
          confined f affil m numNets i \<and>
          (sm 27 = sm 36 \<or> (r = id \<and> sum_spec r (sm 27))))"
  shows "pc ! i = Fin 0"
proof -
  have pc: "pc ! i = partCoef r sm f affil m numNets i"
    using assms(1,2) by (auto simp: tab_def split: if_splits)
  from assms(3) show ?thesis
  proof
    assume "degreeOfROIs sm f m i = Fin 0"
    then show ?thesis by (simp add: pc partCoef_zero_degree)
  next
    assume h: "rounding_ok r \<and> sum_spec r (sm 36) \<and> (\<forall>j<m. representable r (f i j)) \<and>
          confined f affil m numNets i \<and>
          (sm 27 = sm 36 \<or> (r = id \<and> sum_spec r (sm 27)))"
    define c where "c = nat (affil ! i) - 1"
    have c: "affil ! i = int (Suc c)" "c < numNets"
      using h unfolding confined_def c_def by auto
    have "sm 36 = sm 27 \<or> (sum_spec id (sm 36) \<and> sum_spec id (sm 27))"
      using h by auto
    then have agree: "np_nansum (sm 36) (tab m (\<lambda>j. f i j)) = degreeOfROIs sm f m i"
      unfolding degreeOfROIs_def by (rule nansum_agree)
    have "arrHere r sm f affil m numNets i = fl_square r (np_nansum (sm 36) (tab m (\<lambda>j. f i j)))"
      by (rule arrHere_confined[where c=c]) (use h c in \<open>auto simp: confined_def\<close>)
    with h agree show ?thesis by (simp add: pc partCoef_arr_eq_square)
  qed
qed

lemma all_less_4: "(\<forall>j<4. P j) = (P 0 \<and> P 1 \<and> P 2 \<and> P (3::nat))"
  by (auto simp: less_Suc_eq numeral_eq_Suc)

theorem participation_zero_witness:
  "\<exists>pc. participation_coefficient_sign id (sequential_sums id) (Array2 4 4 pc_example) [1, 1, 2, 2] 2 = Inr pc
     \<and> pc ! 0 = Fin 0 \<and> pc ! 2 = Fin 0"
proof -
  obtain pc where pc: "participation_coefficient_sign id (sequential_sums id) (Array2 4 4 pc_example) [1, 1, 2, 2] 2 = Inr pc"
    by simp
  have d2: "degreeOfROIs (sequential_sums id) pc_example 4 2 = Fin 0"
    by (simp add: degreeOfROIs_def np_nansum_def sum_sequential_def sequential_sums_def replace_nan_def
          tab_def pc_example_def upt_rec[of _ "numeral _"])
  have c0: "rounding_ok id \<and> sum_spec id (sequential_sums id 36) \<and>
      (\<forall>j<4. representable id (pc_example 0 j)) \<and> confined pc_example [1, 1, 2, 2] 4 2 0 \<and>
      (sequential_sums id 27 = sequential_sums id 36 \<or> (id = id \<and> sum_spec id (sequential_sums id 27)))"
    by (simp add: rounding_ok_def representable_def confined_def pc_example_def all_less_4
          sequential_sums_def sum_sequential_spec split: fval.splits)
  from participation_zero[OF pc, of 0] c0 have "pc ! 0 = Fin 0" by simp
  moreover from participation_zero[OF pc, of 2] d2 have "pc ! 2 = Fin 0" by simp
  ultimately show ?thesis using pc by simp
qed

text \<open>
  The eight-node example in double precision: the additions of lines 27 and 36, one by
  one.
\<close>

lemma tenths_add_1: "fl_add round_binary64 (Fin 0) (Fin 0) = Fin 0"
  by (simp add: round_binary64_def)

lemma tenths_add_2: "fl_add round_binary64 (Fin 0) (Fin tenth) = Fin tenth"
  by (simp only: fl_add.simps) (subst round_binary64_dyadic[where j=56], simp_all add: tenth_def round_half_even_def Let_def)

lemma tenths_add_3: "fl_add round_binary64 (Fin tenth) (Fin tenth) = Fin (3602879701896397 / 2 ^ 54)"
  by (simp only: fl_add.simps) (subst round_binary64_dyadic[where j=55], simp_all add: tenth_def round_half_even_def Let_def)

lemma tenths_add_4: "fl_add round_binary64 (Fin (3602879701896397 / 2 ^ 54)) (Fin tenth) = Fin (1351079888211149 / 2 ^ 52)"
  by (simp only: fl_add.simps) (subst round_binary64_dyadic[where j=54], simp_all add: tenth_def round_half_even_def Let_def)

lemma tenths_add_5: "fl_add round_binary64 (Fin (1351079888211149 / 2 ^ 52)) (Fin tenth) = Fin (3602879701896397 / 2 ^ 53)"
  by (simp only: fl_add.simps) (subst round_binary64_dyadic[where j=54], simp_all add: tenth_def round_half_even_def Let_def)

lemma tenths_add_6: "fl_add round_binary64 (Fin (3602879701896397 / 2 ^ 53)) (Fin tenth) = Fin (1 / 2 ^ 1)"
  by (simp only: fl_add.simps) (subst round_binary64_dyadic[where j=53], simp_all add: tenth_def round_half_even_def Let_def)

lemma tenths_add_7: "fl_add round_binary64 (Fin (1 / 2 ^ 1)) (Fin tenth) = Fin (5404319552844595 / 2 ^ 53)"
  by (simp only: fl_add.simps) (subst round_binary64_dyadic[where j=53], simp_all add: tenth_def round_half_even_def Let_def)

lemma tenths_add_8: "fl_add round_binary64 (Fin (5404319552844595 / 2 ^ 53)) (Fin tenth) = Fin (3152519739159347 / 2 ^ 52)"
  by (simp only: fl_add.simps) (subst round_binary64_dyadic[where j=53], simp_all add: tenth_def round_half_even_def Let_def)

lemma tenths_mul_9: "fl_mul round_binary64 (Fin 0) (Fin 0) = Fin 0"
  by (simp add: round_binary64_def)

lemma tenths_mul_10: "fl_mul round_binary64 (Fin tenth) (Fin 1) = Fin tenth"
  by (simp only: fl_mul.simps) (subst round_binary64_dyadic[where j=56], simp_all add: tenth_def round_half_even_def Let_def)

lemma tenths_add_11: "fl_add round_binary64 (Fin tenth) (Fin (3602879701896397 / 2 ^ 54)) = Fin (1351079888211149 / 2 ^ 52)"
  by (simp only: fl_add.simps) (subst round_binary64_dyadic[where j=54], simp_all add: tenth_def round_half_even_def Let_def)

lemma tenths_add_12: "fl_add round_binary64 (Fin (3602879701896397 / 2 ^ 54)) (Fin (3602879701896397 / 2 ^ 54)) = Fin (3602879701896397 / 2 ^ 53)"
  by (simp only: fl_add.simps) (subst round_binary64_dyadic[where j=54], simp_all add: tenth_def round_half_even_def Let_def)

lemma tenths_add_13: "fl_add round_binary64 (Fin (1351079888211149 / 2 ^ 52)) (Fin (3602879701896397 / 2 ^ 53)) = Fin (6305039478318695 / 2 ^ 53)"
  by (simp only: fl_add.simps) (subst round_binary64_dyadic[where j=53], simp_all add: tenth_def round_half_even_def Let_def)

lemma tenths_add_14: "fl_add round_binary64 (Fin 0) (Fin (6305039478318695 / 2 ^ 53)) = Fin (6305039478318695 / 2 ^ 53)"
  by (simp only: fl_add.simps) (subst round_binary64_dyadic[where j=53], simp_all add: tenth_def round_half_even_def Let_def)

lemma tenths_mul_15: "fl_mul round_binary64 (Fin (6305039478318695 / 2 ^ 53)) (Fin (6305039478318695 / 2 ^ 53)) = Fin (4413527634823087 / 2 ^ 53)"
  by (simp only: fl_mul.simps) (subst round_binary64_dyadic[where j=54], simp_all add: tenth_def round_half_even_def Let_def)

lemma tenths_add_16: "fl_add round_binary64 (Fin 0) (Fin (4413527634823087 / 2 ^ 53)) = Fin (4413527634823087 / 2 ^ 53)"
  by (simp only: fl_add.simps) (subst round_binary64_dyadic[where j=54], simp_all add: tenth_def round_half_even_def Let_def)

lemma tenths_mul_17: "fl_mul round_binary64 (Fin (3152519739159347 / 2 ^ 52)) (Fin (3152519739159347 / 2 ^ 52)) = Fin (8827055269646171 / 2 ^ 54)"
  by (simp only: fl_mul.simps) (subst round_binary64_dyadic[where j=54], simp_all add: tenth_def round_half_even_def Let_def)

lemma tenths_div_18: "fl_div round_binary64 (Fin (4413527634823087 / 2 ^ 53)) (Fin (8827055269646171 / 2 ^ 54)) = Fin (2251799813685249 / 2 ^ 51)"
  by (simp only: fl_div.simps) (subst round_binary64_dyadic[where j=52], simp_all add: tenth_def round_half_even_def Let_def)

lemma tenths_add_19: "fl_add round_binary64 (Fin 1) (Fin (- (2251799813685249 / 2 ^ 51))) = Fin (- (1 / 2 ^ 51))"
  by (simp only: fl_add.simps) (subst round_binary64_dyadic[where j=103], simp_all add: tenth_def round_half_even_def Let_def)

lemma tab_8: "tab 8 f = [f 0, f 1, f 2, f 3, f 4, f 5, f 6, f 7]"
proof -
  have "[0..<8] = [0, 1, 2, 3, 4, 5, 6, 7::nat]"
    by (simp add: upt_rec[of _ "numeral _"] upt_rec[of _ "Suc _"] eval_nat_numeral)
  then show ?thesis by (simp add: tab_def)
qed

lemma sums_fortran_order_lines:
  "sums_fortran_order r 27 = sum_sequential r" "sums_fortran_order r 36 = sum_pairwise r"
  by (simp_all add: sums_fortran_order_def)

lemma tenth_nz: "tenth \<noteq> 0"
  by (simp add: tenth_def)

lemma tenths_row:
  "tab 8 (\<lambda>j. tenths 0 j) = [Fin 0, Fin tenth, Fin tenth, Fin tenth, Fin tenth, Fin tenth, Fin tenth, Fin tenth]"
  by (simp add: tab_8 tenths_def)

lemma tenth_not_special: "Fin tenth \<noteq> NaN" "Fin tenth \<noteq> Fin 0"
  by (simp_all add: tenth_def)

lemma tenths_row_nan:
  "replace_nan [Fin 0, Fin tenth, Fin tenth, Fin tenth, Fin tenth, Fin tenth, Fin tenth, Fin tenth]
     = [Fin 0, Fin tenth, Fin tenth, Fin tenth, Fin tenth, Fin tenth, Fin tenth, Fin tenth]"
  by (simp add: replace_nan_def)

lemma tenths_degree:
  "degreeOfROIs (sums_fortran_order round_binary64) tenths 8 0 = (Fin (3152519739159347 / 2 ^ 52))"
  unfolding degreeOfROIs_def np_nansum_def tenths_row tenths_row_nan
  by (simp only: sums_fortran_order_lines sum_sequential_def foldl.simps tenths_add_1 tenths_add_2 tenths_add_3 tenths_add_4 tenths_add_5 tenths_add_6 tenths_add_7 tenths_add_8 tenths_mul_9 tenths_mul_10 tenths_add_11 tenths_add_12 tenths_add_13 tenths_add_14 tenths_mul_15 tenths_add_16 tenths_mul_17 tenths_div_18 tenths_add_19)

lemma tenths_vecHere:
  "tab 8 (\<lambda>j. vecHere round_binary64 tenths [1, 1, 1, 1, 1, 1, 1, 1] 1 0 j)
     = [Fin 0, Fin tenth, Fin tenth, Fin tenth, Fin tenth, Fin tenth, Fin tenth, Fin tenth]"
proof -
  have m0: "netAffilMask tenths [1, 1, 1, 1, 1, 1, 1, 1] 0 0 = 0"
    by (simp add: netAffilMask_def tenths_def nonzero_def)
  have m: "netAffilMask tenths [1, 1, 1, 1, 1, 1, 1, 1] 0 j = 1" if "0 < j" "j < 8" for j
  proof -
    have "[1, 1, 1, 1, 1, 1, 1, 1] ! j = 1" using that by (auto simp: less_Suc_eq numeral_eq_Suc)
    then show ?thesis using that tenth_nz by (simp add: netAffilMask_def tenths_def nonzero_def)
  qed
  have v0: "vecHere round_binary64 tenths [1, 1, 1, 1, 1, 1, 1, 1] 1 0 0 = Fin 0"
    unfolding vecHere_def m0 by (simp add: tenths_def bool_fval_def round_binary64_def)
  have v: "vecHere round_binary64 tenths [1, 1, 1, 1, 1, 1, 1, 1] 1 0 j = Fin tenth" if "0 < j" "j < 8" for j
  proof -
    have "tenths 0 j = Fin tenth" using that by (simp add: tenths_def)
    then show ?thesis
      unfolding vecHere_def m[OF that] bool_fval_def by (simp only: refl if_True tenths_mul_10)
  qed
  show ?thesis unfolding tab_8 by (simp add: v0 v)
qed

lemma pairwise_8:
  "pairwise_sum r [x0, x1, x2, x3, x4, x5, x6, x7]
     = fl_add r (fl_add r (fl_add r x0 x1) (fl_add r x2 x3))
                (fl_add r (fl_add r x4 x5) (fl_add r x6 x7))"
  by (subst pairwise_sum.simps, subst block_loop.simps) (simp add: add_accumulators_def)

lemma tenths_sumVec:
  "sumVec round_binary64 (sums_fortran_order round_binary64) tenths [1, 1, 1, 1, 1, 1, 1, 1] 8 1 0 = (Fin (6305039478318695 / 2 ^ 53))"
  unfolding sumVec_def np_nansum_def tenths_vecHere tenths_row_nan
  by (simp only: sums_fortran_order_lines sum_pairwise_def pairwise_8 tenths_add_1 tenths_add_2 tenths_add_3 tenths_add_4 tenths_add_5 tenths_add_6 tenths_add_7 tenths_add_8 tenths_mul_9 tenths_mul_10 tenths_add_11 tenths_add_12 tenths_add_13 tenths_add_14 tenths_mul_15 tenths_add_16 tenths_mul_17 tenths_div_18 tenths_add_19)

lemma tenths_arrHere:
  "arrHere round_binary64 (sums_fortran_order round_binary64) tenths [1, 1, 1, 1, 1, 1, 1, 1] 8 1 0 = (Fin (4413527634823087 / 2 ^ 53))"
proof -
  have l: "map (\<lambda>k. int (Suc k)) [0..<1] = [1]" by simp
  show ?thesis
    unfolding arrHere_def l
    by (simp only: foldl.simps tenths_sumVec fl_square_def tenths_add_1 tenths_add_2 tenths_add_3 tenths_add_4 tenths_add_5 tenths_add_6 tenths_add_7 tenths_add_8 tenths_mul_9 tenths_mul_10 tenths_add_11 tenths_add_12 tenths_add_13 tenths_add_14 tenths_mul_15 tenths_add_16 tenths_mul_17 tenths_div_18 tenths_add_19)
qed

lemma tenths_partCoef:
  "partCoef round_binary64 (sums_fortran_order round_binary64) tenths [1, 1, 1, 1, 1, 1, 1, 1] 8 1 0 = (Fin (- (1 / 2 ^ 51)))"
proof -
  have sq: "fl_square round_binary64 (Fin (3152519739159347 / 2 ^ 52)) = (Fin (8827055269646171 / 2 ^ 54))"
    unfolding fl_square_def by (rule tenths_mul_17)
  have d: "fl_div round_binary64 (Fin (4413527634823087 / 2 ^ 53)) (Fin (8827055269646171 / 2 ^ 54)) = (Fin (2251799813685249 / 2 ^ 51))"
    by (rule tenths_div_18)
  have s: "fl_sub round_binary64 (Fin 1) (Fin (2251799813685249 / 2 ^ 51)) = (Fin (- (1 / 2 ^ 51)))"
    unfolding fl_sub_def fl_neg.simps by (rule tenths_add_19)
  have ne: "(Fin (8827055269646171 / 2 ^ 54)) \<noteq> Fin 0" "(Fin (- (1 / 2 ^ 51))) \<noteq> Fin 0" "(Fin (3152519739159347 / 2 ^ 52)) \<noteq> Fin 0" "(Fin (- (1 / 2 ^ 51))) \<noteq> NaN"
    by simp_all
  show ?thesis
    unfolding partCoef_def tenths_degree tenths_arrHere Let_def sq
    using ne by (simp only: if_False d s isnan_def)
qed

text \<open>
  In double precision, on a Fortran-ordered array, node 0 of the eight-node example has
  every edge inside its own (the only) module and a degree that is not zero, and its
  coefficient is \<open>-2^-51\<close> (about \<open>-4.4e-16\<close>), not 0: line 27 adds the row to
  \<open>0.7\<close>, line 36 to \<open>0.7000000000000001\<close>.
\<close>

theorem participation_not_zero:
  "\<exists>pc. participation_coefficient_sign round_binary64 (sums_fortran_order round_binary64)
           (Array2 8 8 tenths) [1, 1, 1, 1, 1, 1, 1, 1] 1 = Inr pc \<and>
        confined tenths [1, 1, 1, 1, 1, 1, 1, 1] 8 1 0 \<and>
        list_all (\<lambda>j. representable round_binary64 (tenths 0 j)) [0..<8] \<and>
        degreeOfROIs (sums_fortran_order round_binary64) tenths 8 0 = Fin (3152519739159347 / 2 ^ 52) \<and>
        pc ! 0 = Fin (- (1 / 2 ^ 51))"
proof -
  have c: "confined tenths [1, 1, 1, 1, 1, 1, 1, 1] 8 1 0"
    by (auto simp: confined_def less_Suc_eq numeral_eq_Suc)
  have rt: "round_binary64 tenth = tenth"
    using tenths_mul_10 by simp
  have r0: "round_binary64 0 = 0" by (simp add: round_binary64_def)
  have r: "list_all (\<lambda>j. representable round_binary64 (tenths 0 j)) [0..<8]"
    by (simp add: list_all_iff representable_def tenths_def rt r0)
  have p: "tab 8 (partCoef round_binary64 (sums_fortran_order round_binary64) tenths [1, 1, 1, 1, 1, 1, 1, 1] 8 1) ! 0
        = Fin (- (1 / 2 ^ 51))"
    unfolding tab_8 by (simp only: nth_Cons_0 tenths_partCoef)
  show ?thesis using c r p tenths_degree by simp
qed

section \<open>Theorems: deviation\<close>






lemma is_report_taskFC [simp]: "\<not> is_report (taskFC_line u)"
  by (simp add: taskFC_line_def)





lemma progress_lines_not_reports:
  "m \<in> set (clustering_lines mf runs u) \<Longrightarrow> \<not> is_report m"
  "m \<in> set (lines_before_check mf) \<Longrightarrow> \<not> is_report m"
  "m \<in> set (lines_after_check mf) \<Longrightarrow> \<not> is_report m"
  by (auto simp: clustering_lines_def lines_before_check_def lines_after_check_def split: if_splits)






section \<open>Theorems: restPartitionAdjuster\<close>

lemma length_decide [simp]: "length (decide r numSubjs prefs netNum nodeNum rc) = length rc"
  by (simp add: decide_def Let_def)

lemma length_fold_decide [simp]: "length (fold (decide r numSubjs prefs netNum) ns rc) = length rc"
  by (induction ns arbitrary: rc) auto

lemma decide_other: "p \<noteq> nodeNum \<Longrightarrow> decide r numSubjs prefs netNum nodeNum rc ! p = rc ! p"
  by (simp add: decide_def Let_def)

lemma fold_decide_other:
  "p \<notin> set ns \<Longrightarrow> fold (decide r numSubjs prefs netNum) ns rc ! p = rc ! p"
  by (induction ns arbitrary: rc) (auto simp: decide_other)

lemma decide_same:
  "p < length rc \<Longrightarrow> decide r numSubjs prefs netNum p rc ! p = decided r numSubjs prefs netNum p (rc ! p)"
  by (simp add: decide_def decided_def Let_def)

lemma decided_idem:
  "decided r numSubjs prefs netNum p (decided r numSubjs prefs netNum p old) = decided r numSubjs prefs netNum p old"
  by (simp add: decided_def)

lemma fold_decide_same:
  "p \<in> set ns \<Longrightarrow> p < length rc \<Longrightarrow>
   fold (decide r numSubjs prefs netNum) ns rc ! p = decided r numSubjs prefs netNum p (rc ! p)"
proof (induction ns arbitrary: rc)
  case Nil
  then show ?case by simp
next
  case (Cons x ns)
  show ?case
  proof (cases "p \<in> set ns")
    case True
    then have "fold (decide r numSubjs prefs netNum) (x # ns) rc ! p
        = decided r numSubjs prefs netNum p (decide r numSubjs prefs netNum x rc ! p)"
      using Cons.IH[of "decide r numSubjs prefs netNum x rc"] Cons.prems by simp
    then show ?thesis using Cons.prems
      by (cases "x = p") (simp_all add: decide_same decide_other decided_idem)
  next
    case False
    then have "x = p" using Cons.prems by simp
    then show ?thesis using False Cons.prems by (simp add: fold_decide_other decide_same)
  qed
qed

lemma length_net_steps [simp]: "length (fold (net_step r numSubjs prefs b) ks rc) = length rc"
  by (induction ks arbitrary: rc) (auto simp: net_step_def)

lemma net_steps_other:
  "\<forall>k\<in>set ks. \<not> (startNode b k \<le> p \<and> p < endNode b k) \<Longrightarrow>
   fold (net_step r numSubjs prefs b) ks rc ! p = rc ! p"
  by (induction ks arbitrary: rc) (auto simp: net_step_def fold_decide_other)

lemma restConsensus_of_alt:
  "restConsensus_of r nParcels numSubjs prefs b =
     fold (net_step r numSubjs prefs b) [0..<length b] (replicate nParcels 0)"
  by (simp add: restConsensus_of_def net_step_def[abs_def])

lemma restConsensus_of_node:
  assumes k: "netNum < length b" and inr: "startNode b netNum \<le> p" "p < endNode b netNum"
    and p: "p < nParcels"
    and uniq: "\<forall>k<length b. k \<noteq> netNum \<longrightarrow> \<not> (startNode b k \<le> p \<and> p < endNode b k)"
  shows "\<exists>old. restConsensus_of r nParcels numSubjs prefs b ! p = decided r numSubjs prefs netNum p old"
proof -
  let ?step = "net_step r numSubjs prefs b"
  have split: "[0..<length b] = [0..<netNum] @ netNum # [Suc netNum..<length b]"
  proof -
    have "[0..<length b] = [0..<netNum] @ [netNum..<length b]"
      using k upt_add_eq_append[of 0 netNum "length b - netNum"] by simp
    then show ?thesis using k by (simp add: upt_conv_Cons)
  qed
  define rc1 where "rc1 = fold ?step [0..<netNum] (replicate nParcels 0)"
  have len1: "length rc1 = nParcels" by (simp add: rc1_def)
  have "restConsensus_of r nParcels numSubjs prefs b ! p
      = fold ?step [Suc netNum..<length b] (?step netNum rc1) ! p"
    by (subst restConsensus_of_alt, subst split) (simp add: rc1_def)
  also have "\<dots> = ?step netNum rc1 ! p"
    by (rule net_steps_other) (use uniq in auto)
  also have "\<dots> = decided r numSubjs prefs netNum p (rc1 ! p)"
    unfolding net_step_def by (rule fold_decide_same) (use inr p len1 in auto)
  finally show ?thesis by blast
qed

lemma mode_scan_props:
  "mode_scan xs best cnt vs = (m, c) \<Longrightarrow>
   ((m, c) = (best, cnt) \<and> (\<forall>v\<in>set vs. count_list xs v \<le> cnt)) \<or>
   (m \<in> set vs \<and> c = count_list xs m \<and> cnt < c \<and> (\<forall>v\<in>set vs. count_list xs v \<le> c) \<and>
    (sorted vs \<longrightarrow> (\<forall>v\<in>set vs. count_list xs v = c \<longrightarrow> m \<le> v)))"
proof (induction vs arbitrary: best cnt)
  case Nil
  then show ?case by simp
next
  case (Cons v vs)
  show ?case
  proof (cases "cnt < count_list xs v")
    case True
    then have res: "mode_scan xs v (count_list xs v) vs = (m, c)" using Cons.prems by simp
    from Cons.IH[OF res] show ?thesis
    proof
      assume "(m, c) = (v, count_list xs v) \<and> (\<forall>w\<in>set vs. count_list xs w \<le> count_list xs v)"
      then show ?thesis using True by auto
    next
      assume "m \<in> set vs \<and> c = count_list xs m \<and> count_list xs v < c \<and>
        (\<forall>w\<in>set vs. count_list xs w \<le> c) \<and>
        (sorted vs \<longrightarrow> (\<forall>w\<in>set vs. count_list xs w = c \<longrightarrow> m \<le> w))"
      then show ?thesis using True by auto
    qed
  next
    case False
    then have res: "mode_scan xs best cnt vs = (m, c)" using Cons.prems by simp
    from Cons.IH[OF res] show ?thesis
    proof
      assume "(m, c) = (best, cnt) \<and> (\<forall>w\<in>set vs. count_list xs w \<le> cnt)"
      then show ?thesis using False by auto
    next
      assume "m \<in> set vs \<and> c = count_list xs m \<and> cnt < c \<and>
        (\<forall>w\<in>set vs. count_list xs w \<le> c) \<and>
        (sorted vs \<longrightarrow> (\<forall>w\<in>set vs. count_list xs w = c \<longrightarrow> m \<le> w))"
      then show ?thesis using False by auto
    qed
  qed
qed

lemma stats_mode_props:
  assumes "xs \<noteq> []" and "stats_mode xs = (m, c)"
  shows "m \<in> set xs" "c = count_list xs m" "\<forall>w. count_list xs w \<le> c"
    "\<forall>w. count_list xs w = c \<longrightarrow> m \<le> w"
proof -
  let ?vs = "sort (remdups xs)"
  have sc: "mode_scan xs 0 0 ?vs = (m, c)" using assms(2) by (simp add: stats_mode_def)
  obtain x where x: "x \<in> set xs" using assms(1) by (cases xs) auto
  then have pos: "0 < count_list xs x" using count_list_0_iff[of xs x] by simp
  have main: "m \<in> set ?vs \<and> c = count_list xs m \<and> 0 < c \<and> (\<forall>v\<in>set ?vs. count_list xs v \<le> c) \<and>
    (\<forall>v\<in>set ?vs. count_list xs v = c \<longrightarrow> m \<le> v)"
    using mode_scan_props[OF sc] x pos by auto
  show "m \<in> set xs" "c = count_list xs m" using main by auto
  show le: "\<forall>w. count_list xs w \<le> c"
  proof
    fix w show "count_list xs w \<le> c"
      using main by (cases "w \<in> set xs") auto
  qed
  show "\<forall>w. count_list xs w = c \<longrightarrow> m \<le> w"
  proof (intro allI impI)
    fix w assume "count_list xs w = c"
    then have "w \<in> set xs" using main count_list_0_iff[of xs w] by auto
    then show "m \<le> w" using main \<open>count_list xs w = c\<close> by auto
  qed
qed

text \<open>
  Claim C3. For every node of a run of \<open>restPartitionAdjuster\<close> that returns: let
  \<open>netNum\<close> be the node's original network, the one network whose range in
  \<open>netBoundaries\<close> holds the node. If \<open>percentAgree\<close> of the node is below 0.5, its
  \<open>restConsensus\<close> is \<open>netNum\<close>; if it is at least 0.5, its \<open>restConsensus\<close> is the mode of
  the node's preferences across subjects. \<open>percentAgree\<close> is the count of that mode over
  the number of subjects, and no network is preferred by more subjects than the mode.
\<close>

theorem consensus_decision_rule:
  assumes run: "restPartitionAdjuster srt r sm (Array3 nParcels n1 numSubjs fc) b nodeOrder = Inr out"
    and net: "netNum < length b" "startNode b netNum \<le> nodeNum" "nodeNum < endNode b netNum"
    and uniq: "\<forall>k<length b. k \<noteq> netNum \<longrightarrow> \<not> (startNode b k \<le> nodeNum \<and> nodeNum < endNode b k)"
  shows "(fl_lt (percentAgree out ! nodeNum) (Fin (1 / 2)) \<longrightarrow> restConsensus out ! nodeNum = netNum) \<and>
         (fl_le (Fin (1 / 2)) (percentAgree out ! nodeNum) \<longrightarrow>
            restConsensus out ! nodeNum = fst (stats_mode (restPreferences out ! nodeNum))) \<and>
         percentAgree out ! nodeNum =
            fl_div r (Fin (real (count_list (restPreferences out ! nodeNum)
                                   (fst (stats_mode (restPreferences out ! nodeNum))))))
                     (Fin (real numSubjs)) \<and>
         (\<forall>w. count_list (restPreferences out ! nodeNum) w
               \<le> count_list (restPreferences out ! nodeNum)
                    (fst (stats_mode (restPreferences out ! nodeNum))))"
proof -
  let ?A = "Array3 nParcels n1 numSubjs fc"
  let ?prefs = "restPreferences_of srt r sm ?A b nodeOrder"
  have ok: "ranges_ok nParcels b" "\<not> (numSubjs = 0 \<and> 0 < nParcels)"
    using run by (auto simp: restPartitionAdjuster_def Let_def split: if_splits)
  have out: "restPreferences out = ?prefs"
    "percentAgree out = tab nParcels (percentAgree_of r numSubjs ?prefs)"
    "restConsensus out = restConsensus_of r nParcels numSubjs ?prefs b"
    using run by (auto simp: restPartitionAdjuster_def Let_def split: if_splits)
  have "endNode b netNum \<le> startNode b netNum \<or> endNode b netNum \<le> nParcels"
    using ok(1) net(1) by (auto simp: ranges_ok_def list_all_iff)
  then have p: "nodeNum < nParcels" using net by auto
  then have subj: "0 < numSubjs" using ok(2) by auto
  have pa: "percentAgree out ! nodeNum = percentAgree_of r numSubjs ?prefs nodeNum"
    using p by (simp add: out tab_def)
  have row: "restPreferences out ! nodeNum \<noteq> []"
    using p subj by (simp add: out restPreferences_of_def tab_def)
  obtain m c where mc: "stats_mode (restPreferences out ! nodeNum) = (m, c)"
    by (cases "stats_mode (restPreferences out ! nodeNum)")
  note sm = stats_mode_props[OF row mc]
  have rm: "restMode ?prefs nodeNum = m" "restModeCount ?prefs nodeNum = c"
    using mc by (simp_all add: restMode_def restModeCount_def out)
  obtain old where old: "restConsensus out ! nodeNum = decided r numSubjs ?prefs netNum nodeNum old"
    using restConsensus_of_node[OF net p uniq] out(3) by metis
  have lt_le: "\<not> (fl_lt x (Fin (1 / 2)) \<and> fl_le (Fin (1 / 2)) x)" for x
    by (cases x) (auto simp: fl_le_def)
  show ?thesis
    using old lt_le[of "percentAgree_of r numSubjs ?prefs nodeNum"] sm
    by (auto simp: pa decided_def rm mc percentAgree_of_def)
qed

lemma tanh_artanh_real: "\<bar>x\<bar> < 1 \<Longrightarrow> tanh (artanh x) = (x::real)"
proof -
  assume a: "\<bar>x\<bar> < 1"
  then have pos: "0 < (1 + x) / (1 - x)" by auto
  have "tanh (artanh x) = tanh (ln ((1 + x) / (1 - x)) / 2)" by (simp add: artanh_def)
  also have "\<dots> = (1 - exp (- ln ((1 + x) / (1 - x)))) / (1 + exp (- ln ((1 + x) / (1 - x))))"
    by (simp add: tanh_real_altdef)
  also have "exp (- ln ((1 + x) / (1 - x))) = (1 - x) / (1 + x)"
    using pos by (simp add: exp_minus)
  also have "(1 - (1 - x) / (1 + x)) / (1 + (1 - x) / (1 + x)) = x"
    using a by (simp add: field_simps)
  finally show ?thesis .
qed

lemma artanh_less_iff: "\<bar>x\<bar> < 1 \<Longrightarrow> \<bar>y\<bar> < 1 \<Longrightarrow> artanh x < artanh y \<longleftrightarrow> x < (y::real)"
  by (metis tanh_artanh_real tanh_real_less_iff)

lemma artanh_pos_iff: "\<bar>x\<bar> < 1 \<Longrightarrow> 0 < artanh x \<longleftrightarrow> 0 < (x::real)"
  using artanh_less_iff[of 0 x] by simp

lemma artanh_neg_iff: "\<bar>x\<bar> < 1 \<Longrightarrow> artanh x < 0 \<longleftrightarrow> x < (0::real)"
  using artanh_less_iff[of x 0] by simp

lemma artanh_eq_iff: "\<bar>x\<bar> < 1 \<Longrightarrow> \<bar>y\<bar> < 1 \<Longrightarrow> artanh x = artanh y \<longleftrightarrow> x = (y::real)"
  by (metis tanh_artanh_real)

lemmas eval_defs = tab_def slice_def startNode_def endNode_def np_nanmean_def np_nansum_def sum_sequential_def sequential_sums_def
  replace_nan_def count_not_nan_def np_arctanh_def np_tanh_def subjSortedCA_def sort_lt_def
  argsort_insertion_def inf_of_sign_def

lemmas upt_num = upt_rec[of _ "numeral _"] upt_rec[of _ "Suc _"]

lemma rest_example_prefs:
  "restPreferences_of argsort_insertion id (sequential_sums id) rest_example rest_example_boundaries [0, 1, 2, 3]
     = [[0, 1, 2], [1, 1, 1], [1, 1, 1], [2, 2, 2]]"
  by (simp add: restPreferences_of_def rest_example_def rest_example_boundaries_def prefIdx0_def tempVec_def
        eval_defs upt_num artanh_less_iff artanh_pos_iff artanh_neg_iff artanh_eq_iff nth_Cons')

lemma sort_lt_irrefl [simp]: "\<not> sort_lt a a"
  by (cases a) (auto simp: sort_lt_def)

lemma sort_lt_trans: "sort_lt a b \<Longrightarrow> sort_lt b c \<Longrightarrow> sort_lt a c"
  by (cases a; cases b; cases c) (auto simp: sort_lt_def)

lemma sort_le_trans: "\<not> sort_lt b a \<Longrightarrow> \<not> sort_lt c b \<Longrightarrow> \<not> sort_lt c a"
  by (cases a; cases b; cases c) (auto simp: sort_lt_def)

lemma sort_lt_le_trans: "sort_lt a b \<Longrightarrow> \<not> sort_lt c b \<Longrightarrow> sort_lt a c"
  by (cases a; cases b; cases c) (auto simp: sort_lt_def)

lemma sort_lt_total: "\<not> sort_lt a b \<Longrightarrow> \<not> sort_lt b a \<Longrightarrow> a = b"
  by (cases a; cases b) (auto simp: sort_lt_def)

lemma mset_insert_idx [simp]: "mset (insert_idx v i js) = add_mset i (mset js)"
  by (induction js) auto

lemma set_insert_idx [simp]: "set (insert_idx v i js) = insert i (set js)"
  by (induction js) auto

lemma sorted_insert_idx:
  "sorted_wrt (\<lambda>i j. \<not> sort_lt (v ! j) (v ! i)) js \<Longrightarrow>
   sorted_wrt (\<lambda>i j. \<not> sort_lt (v ! j) (v ! i)) (insert_idx v i js)"
proof (induction js)
  case Nil
  then show ?case by simp
next
  case (Cons j js)
  show ?case
  proof (cases "sort_lt (v ! i) (v ! j)")
    case True
    have "\<not> sort_lt (v ! x) (v ! i)" if "x \<in> set (j # js)" for x
    proof -
      have "\<not> sort_lt (v ! x) (v ! j)" using Cons.prems that by auto
      then show ?thesis using True by (meson sort_lt_le_trans sort_lt_irrefl sort_lt_trans)
    qed
    then show ?thesis using True Cons.prems by auto
  next
    case False
    then show ?thesis using Cons by auto
  qed
qed

lemma stable_insert_idx:
  assumes "sorted_wrt (\<lambda>i j. \<not> sort_lt (v ! j) (v ! i)) js"
    and "sorted_wrt (\<lambda>i j. v ! i = v ! j \<longrightarrow> i < j) js"
    and "\<forall>j\<in>set js. j < i"
  shows "sorted_wrt (\<lambda>i j. v ! i = v ! j \<longrightarrow> i < j) (insert_idx v i js)"
  using assms
proof (induction js)
  case Nil
  then show ?case by simp
next
  case (Cons j js)
  show ?case
  proof (cases "sort_lt (v ! i) (v ! j)")
    case True
    have "v ! i \<noteq> v ! x" if "x \<in> set (j # js)" for x
    proof -
      have "\<not> sort_lt (v ! x) (v ! j)" using Cons.prems(1) that by auto
      with True have "sort_lt (v ! i) (v ! x)" by (rule sort_lt_le_trans)
      then show ?thesis by auto
    qed
    then show ?thesis using True Cons.prems by auto
  next
    case False
    then show ?thesis using Cons by auto
  qed
qed

lemma argsort_insertion_inv:
  "mset (foldl (\<lambda>acc i. insert_idx v i acc) [] [0..<k]) = mset [0..<k] \<and>
   sorted_wrt (\<lambda>i j. \<not> sort_lt (v ! j) (v ! i)) (foldl (\<lambda>acc i. insert_idx v i acc) [] [0..<k]) \<and>
   sorted_wrt (\<lambda>i j. v ! i = v ! j \<longrightarrow> i < j) (foldl (\<lambda>acc i. insert_idx v i acc) [] [0..<k])"
proof (induction k)
  case 0
  then show ?case by simp
next
  case (Suc k)
  let ?acc = "foldl (\<lambda>acc i. insert_idx v i acc) [] [0..<k]"
  have "set ?acc = set [0..<k]" using Suc by (metis mset_eq_setD)
  then have "\<forall>j\<in>set ?acc. j < k" by auto
  then show ?case using Suc by (simp add: sorted_insert_idx stable_insert_idx)
qed

lemma argsort_insertion_spec: "argsort_spec argsort_insertion"
  using argsort_insertion_inv by (simp add: argsort_spec_def argsort_insertion_def)

lemma argsort_insertion_stable: "argsort_stable argsort_insertion"
  using argsort_insertion_inv by (simp add: argsort_stable_def argsort_insertion_def)

lemma argsort_spec_length: "argsort_spec srt \<Longrightarrow> length (srt v) = length v"
  by (metis argsort_spec_def length_upt minus_nat.diff_0 size_mset)

lemma argsort_spec_set: "argsort_spec srt \<Longrightarrow> set (srt v) = {0..<length v}"
  by (metis argsort_spec_def mset_eq_setD set_upt)

lemma argsort_spec_distinct: "argsort_spec srt \<Longrightarrow> distinct (srt v)"
  by (metis argsort_spec_def distinct_upt mset_eq_imp_distinct_iff)

lemma length_argsort_insertion [simp]: "length (argsort_insertion v) = length v"
  by (rule argsort_spec_length[OF argsort_insertion_spec])

lemma argsort_insertion_Nil_iff [simp]: "argsort_insertion v = [] \<longleftrightarrow> v = []"
  using length_argsort_insertion[of v] by (metis length_0_conv)

lemma length_tempVec [simp]: "length (tempVec r sm fc b nodeOrder s n) = length b"
  by (simp add: tempVec_def tab_def)

lemma tempVec_Nil_iff [simp]: "tempVec r sm fc b nodeOrder s n = [] \<longleftrightarrow> b = []"
  using length_tempVec[of r sm fc b nodeOrder s n] by (metis length_0_conv)

lemma replicate_4: "replicate 4 x = [x, x, x, x]"
  by (simp add: numeral_eq_Suc)

lemmas consensus_defs = restConsensus_of_def decide_def percentAgree_of_def restMode_def restModeCount_def
  stats_mode_def fl_le_def ranges_ok_def finder_def boundary_row_def

lemma rest_example_run:
  "restPartitionAdjuster argsort_insertion id (sequential_sums id) rest_example rest_example_boundaries [0, 1, 2, 3] =
     Inr \<lparr> netBoundariesNew = [(0, 0, 1), (1, 2, 2), (3, 3, 1)],
           nodeOrderNew = [0, 1, 2, 3],
           restPreferences = [[0, 1, 2], [1, 1, 1], [1, 1, 1], [2, 2, 2]],
           percentAgree = [Fin (1 / 3), Fin 1, Fin 1, Fin 1],
           restConsensus = [0, 1, 1, 2],
           nodeIndicesNew = [0, 1, 1, 2] \<rparr>"
proof -
  have ok: "preferences_ok argsort_insertion id (sequential_sums id) rest_example rest_example_boundaries [0, 1, 2, 3]"
    by (simp add: preferences_ok_def rest_example_def rest_example_boundaries_def list_all_iff)
  have rc: "restConsensus_of id 4 3 [[0, 1, 2], [1, 1, 1], [1, 1, 1], [2, 2, 2]] rest_example_boundaries
      = [0, 1, 1, 2]"
    by (simp add: consensus_defs rest_example_boundaries_def startNode_def endNode_def upt_num
          replicate_4 list_update_code nth_Cons')
  have pa: "tab 4 (percentAgree_of id 3 [[0, 1, 2], [1, 1, 1], [1, 1, 1], [2, 2, 2]])
      = [Fin (1 / 3), Fin 1, Fin 1, Fin 1]"
    by (simp add: consensus_defs tab_def upt_num)
  have srt: "argsort_insertion (map (\<lambda>k. Fin (real k)) [0, 1, 1, 2]) = [0, 1, 2, 3]"
    by (simp add: argsort_insertion_def sort_lt_def upt_num)
  have rows: "tab 3 (boundary_row [0, 1, 1, 2]) = [(0, 0, 1), (1, 2, 2), (3, 3, 1)]"
    by (simp add: consensus_defs tab_def upt_num)
  have ne: "list_all (\<lambda>netNum. finder [0, 1, 1, 2] netNum \<noteq> []) [0..<3]"
    by (simp add: finder_def upt_num)
  have rk: "ranges_ok 4 rest_example_boundaries"
    by (simp add: ranges_ok_def rest_example_boundaries_def startNode_def endNode_def upt_num)
  have len: "length rest_example_boundaries = 3" by (simp add: rest_example_boundaries_def)
  have unf: "restPartitionAdjuster argsort_insertion id (sequential_sums id) (Array3 4 4 3 fc) b no =
      (let A = Array3 4 4 3 fc; numNets = length b;
          prefs = restPreferences_of argsort_insertion id (sequential_sums id) A b no;
          rc = restConsensus_of id 4 3 prefs b;
          sorted_rc = sort rc
      in
      if \<not> preferences_ok argsort_insertion id (sequential_sums id) A b no then Inl IndexError
      else if \<not> ranges_ok 4 b then Inl IndexError
      else if \<not> list_all (\<lambda>netNum. finder sorted_rc netNum \<noteq> []) [0..<numNets]
        then Inl ValueError
      else Inr \<lparr> netBoundariesNew = tab numNets (boundary_row sorted_rc),
                 nodeOrderNew = argsort_insertion (map (\<lambda>k. Fin (real k)) rc),
                 restPreferences = prefs,
                 percentAgree = tab 4 (percentAgree_of id 3 prefs),
                 restConsensus = rc,
                 nodeIndicesNew = sorted_rc \<rparr>)" for fc b no
    by (simp add: restPartitionAdjuster_def Let_def)
  have A: "rest_example = Array3 4 4 3 (\<lambda>i j s. Fin (
      if i = 0 then [[0, 1/2, 1/4, 1/8], [0, 1/8, 1/2, 1/4], [0, 1/8, 1/4, 1/2]] ! s ! j
      else if i = 1 then [1/8, 0, 1/2, 1/4] ! j
      else 0))" by (simp add: rest_example_def)
  show ?thesis
    apply (subst A)
    apply (subst unf)
    apply (fold A)
    apply (simp only: Let_def rest_example_prefs len rc)
    using ok rk ne pa srt rows apply simp
    done
qed

lemma all_less_3: "(\<forall>k<3. P k) = (P 0 \<and> P 1 \<and> P (2::nat))"
  by (auto simp: less_Suc_eq numeral_eq_Suc)

theorem consensus_decision_rule_witness:
  "\<exists>out. restPartitionAdjuster argsort_insertion id (sequential_sums id) rest_example rest_example_boundaries [0, 1, 2, 3] = Inr out
     \<and> fl_lt (percentAgree out ! 0) (Fin (1 / 2)) \<and> restConsensus out ! 0 = 0
     \<and> fl_le (Fin (1 / 2)) (percentAgree out ! 1)
     \<and> restConsensus out ! 1 = fst (stats_mode (restPreferences out ! 1))
     \<and> restConsensus out ! 1 = 1"
proof -
  let ?out = "\<lparr> netBoundariesNew = [(0, 0, 1), (1, 2, 2), (3, 3, 1)],
           nodeOrderNew = [0, 1, 2, 3],
           restPreferences = [[0, 1, 2], [1, 1, 1], [1, 1, 1], [2, 2, 2]],
           percentAgree = [Fin (1 / 3), Fin 1, Fin 1, Fin 1],
           restConsensus = [0, 1, 1, 2],
           nodeIndicesNew = [0, 1, 1, 2::nat] \<rparr>"
  have run: "restPartitionAdjuster argsort_insertion id (sequential_sums id) rest_example rest_example_boundaries [0, 1, 2, 3] = Inr ?out"
    by (rule rest_example_run)
  have h0: "0 < length rest_example_boundaries" "startNode rest_example_boundaries 0 \<le> 0"
    "0 < endNode rest_example_boundaries 0"
    "\<forall>k<length rest_example_boundaries. k \<noteq> 0 \<longrightarrow>
       \<not> (startNode rest_example_boundaries k \<le> 0 \<and> 0 < endNode rest_example_boundaries k)"
    by (auto simp: rest_example_boundaries_def startNode_def endNode_def less_Suc_eq)
  have h1: "0 < length rest_example_boundaries" "startNode rest_example_boundaries 0 \<le> 1"
    "1 < endNode rest_example_boundaries 0"
    "\<forall>k<length rest_example_boundaries. k \<noteq> 0 \<longrightarrow>
       \<not> (startNode rest_example_boundaries k \<le> 1 \<and> 1 < endNode rest_example_boundaries k)"
    by (auto simp: rest_example_boundaries_def startNode_def endNode_def less_Suc_eq)
  have r0: "fl_lt (percentAgree ?out ! 0) (Fin (1 / 2)) \<longrightarrow> restConsensus ?out ! 0 = 0"
    using consensus_decision_rule[OF run[unfolded rest_example_def] h0] by blast
  have r1: "fl_le (Fin (1 / 2)) (percentAgree ?out ! 1) \<longrightarrow>
      restConsensus ?out ! 1 = fst (stats_mode (restPreferences ?out ! 1))"
    using consensus_decision_rule[OF run[unfolded rest_example_def] h1] by blast
  have "fl_lt (percentAgree ?out ! 0) (Fin (1 / 2))" "fl_le (Fin (1 / 2)) (percentAgree ?out ! 1)"
    by (simp_all add: fl_le_def)
  with r0 r1 have "fl_lt (percentAgree ?out ! 0) (Fin (1 / 2)) \<and> restConsensus ?out ! 0 = 0
     \<and> fl_le (Fin (1 / 2)) (percentAgree ?out ! 1)
     \<and> restConsensus ?out ! 1 = fst (stats_mode (restPreferences ?out ! 1))
     \<and> restConsensus ?out ! 1 = 1" by simp
  with run show ?thesis by blast
qed
lemma finder_Nil_iff: "finder xs k = [] \<longleftrightarrow> k \<notin> set xs"
  by (auto simp: finder_def filter_empty_conv in_set_conv_nth)

lemma preferences_ok_inputs:
  assumes "argsort_spec srt" "rpa_inputs_ok (Array3 nParcels n1 numSubjs fc) b nodeOrder"
  shows "preferences_ok srt r sm (Array3 nParcels n1 numSubjs fc) b nodeOrder"
proof -
  have "srt (tempVec r sm fc b nodeOrder s n) \<noteq> []" for s n
    using argsort_spec_length[OF assms(1), of "tempVec r sm fc b nodeOrder s n"] assms(2)
    by (auto simp: rpa_inputs_ok_def)
  then show ?thesis using assms(2)
    by (simp add: preferences_ok_def rpa_inputs_ok_def list_all_iff)
qed

text \<open>
  Claim C8. On well-formed inputs (\<open>nodeOrder\<close> indexes the array and covers its nodes,
  at least one subject and one network, the ranges of \<open>netBoundaries\<close> inside the
  array) and with a sort that sorts, \<open>restPartitionAdjuster\<close> fails, with the
  ValueError of \<open>np.min\<close> on an empty \<open>finder\<close>, exactly when some network id of
  \<open>0 .. numNets - 1\<close> has no node in the consensus assignment; and it returns exactly
  when every network has a node.
\<close>

theorem empty_network_fails:
  assumes "argsort_spec srt" "rpa_inputs_ok fcArray b nodeOrder"
  shows "(restPartitionAdjuster srt r sm fcArray b nodeOrder = Inl ValueError \<longleftrightarrow>
            (\<exists>k<length b. k \<notin> set (consensus_of srt r sm fcArray b nodeOrder))) \<and>
         ((\<forall>k<length b. k \<in> set (consensus_of srt r sm fcArray b nodeOrder)) \<longleftrightarrow>
            (\<exists>out. restPartitionAdjuster srt r sm fcArray b nodeOrder = Inr out))"
proof -
  obtain nParcels n1 numSubjs fc where A: "fcArray = Array3 nParcels n1 numSubjs fc"
    by (cases fcArray)
  have p: "preferences_ok srt r sm fcArray b nodeOrder"
    using preferences_ok_inputs assms unfolding A by blast
  have q: "0 < numSubjs" "ranges_ok nParcels b"
    using assms(2) by (auto simp: A rpa_inputs_ok_def)
  show ?thesis using p q
    by (auto simp: A restPartitionAdjuster_def consensus_of_def Let_def list_all_iff finder_Nil_iff)
qed

lemma rest_example_empty_prefs:
  "restPreferences_of argsort_insertion id (sequential_sums id) rest_example_empty [(0, 1, 2), (2, 2, 1)] [0, 1, 2]
     = [[1], [1], [1]]"
  by (simp add: restPreferences_of_def rest_example_empty_def prefIdx0_def tempVec_def
        eval_defs upt_num artanh_less_iff artanh_pos_iff artanh_neg_iff artanh_eq_iff nth_Cons')

lemma replicate_3: "replicate 3 x = [x, x, x]"
  by (simp add: numeral_eq_Suc)

lemma rest_example_empty_consensus:
  "consensus_of argsort_insertion id (sequential_sums id) rest_example_empty [(0, 1, 2), (2, 2, 1)] [0, 1, 2] = [1, 1, 1]"
proof -
  have "restConsensus_of id 3 1 [[1], [1], [1]] [(0, 1, 2), (2, 2, 1)] = [1, 1, 1]"
    by (simp add: consensus_defs startNode_def endNode_def upt_num replicate_3 list_update_code nth_Cons')
  then show ?thesis
    using rest_example_empty_prefs
    by (simp add: consensus_of_def rest_example_empty_def)
qed

lemma rest_example_consensus:
  "consensus_of argsort_insertion id (sequential_sums id) rest_example rest_example_boundaries [0, 1, 2, 3] = [0, 1, 1, 2]"
  using rest_example_run
  by (auto simp: restPartitionAdjuster_def consensus_of_def rest_example_def Let_def split: if_splits)

theorem empty_network_fails_witness:
  "restPartitionAdjuster argsort_insertion id (sequential_sums id) rest_example_empty [(0, 1, 2), (2, 2, 1)] [0, 1, 2] = Inl ValueError
   \<and> (\<exists>out. restPartitionAdjuster argsort_insertion id (sequential_sums id) rest_example rest_example_boundaries [0, 1, 2, 3] = Inr out)"
proof -
  have ok1: "rpa_inputs_ok rest_example_empty [(0, 1, 2), (2, 2, 1)] [0, 1, 2]"
    by (simp add: rpa_inputs_ok_def rest_example_empty_def ranges_ok_def startNode_def endNode_def upt_num)
  have ok2: "rpa_inputs_ok rest_example rest_example_boundaries [0, 1, 2, 3]"
    by (simp add: rpa_inputs_ok_def rest_example_def rest_example_boundaries_def ranges_ok_def
          startNode_def endNode_def upt_num)
  have e1: "\<exists>k<length [(0, 1, 2), (2, 2, 1::nat)]. k \<notin> set (consensus_of argsort_insertion id (sequential_sums id) rest_example_empty [(0, 1, 2), (2, 2, 1)] [0, 1, 2])"
    unfolding rest_example_empty_consensus by (intro exI[of _ 0]) simp
  have e2: "\<forall>k<length rest_example_boundaries. k \<in> set (consensus_of argsort_insertion id (sequential_sums id) rest_example rest_example_boundaries [0, 1, 2, 3])"
    unfolding rest_example_consensus by (auto simp: rest_example_boundaries_def less_Suc_eq)
  from empty_network_fails[OF argsort_insertion_spec ok1, of id] e1
  have "restPartitionAdjuster argsort_insertion id (sequential_sums id) rest_example_empty [(0, 1, 2), (2, 2, 1)] [0, 1, 2] = Inl ValueError"
    by blast
  moreover from empty_network_fails[OF argsort_insertion_spec ok2, of id] e2
  have "\<exists>out. restPartitionAdjuster argsort_insertion id (sequential_sums id) rest_example rest_example_boundaries [0, 1, 2, 3] = Inr out"
    by blast
  ultimately show ?thesis by blast
qed

subsection \<open>The rebuilt partition\<close>

lemma upt_0_Suc: "[0..<Suc n] = 0 # [Suc 0..<Suc n]"
  by (simp add: upt_conv_Cons)

lemma finder_Cons:
  "finder (x # xs) k = (if x = k then [0] else []) @ map Suc (finder xs k)"
proof -
  have "[0..<length (x # xs)] = 0 # map Suc [0..<length xs]"
    using upt_0_Suc[of "length xs"] by (simp add: map_Suc_upt)
  then show ?thesis by (simp add: finder_def filter_map comp_def)
qed

lemma finder_sorted:
  "sorted xs \<Longrightarrow>
   finder xs k = [length (filter (\<lambda>x. x < k) xs) ..< length (filter (\<lambda>x. x \<le> k) xs)]"
proof (induction xs)
  case Nil
  then show ?case by (simp add: finder_def)
next
  case (Cons x xs)
  then have IH: "finder xs k = [length (filter (\<lambda>x. x < k) xs) ..< length (filter (\<lambda>x. x \<le> k) xs)]"
    and le: "\<forall>y\<in>set xs. x \<le> y" by auto
  consider "x < k" | "x = k" | "k < x" by linarith
  then show ?case
  proof cases
    case 1
    then show ?thesis by (simp add: finder_Cons IH map_Suc_upt)
  next
    case 2
    then have "filter (\<lambda>y. y < k) xs = []" using le by (auto simp: filter_empty_conv)
    then show ?thesis using 2 upt_0_Suc[of "length (filter (\<lambda>x. x \<le> k) xs)"]
      by (simp add: finder_Cons IH map_Suc_upt)
  next
    case 3
    then have "filter (\<lambda>y. y \<le> k) xs = []" "filter (\<lambda>y. y < k) xs = []"
      using le by (auto simp: filter_empty_conv)
    then show ?thesis using 3 by (simp add: finder_Cons IH)
  qed
qed

lemma length_filter_sort [simp]: "length (filter P (sort xs)) = length (filter P (xs::nat list))"
proof -
  have "mset (filter P (sort xs)) = mset (filter P xs)" by simp
  from arg_cong[OF this, of size] show ?thesis by (simp only: size_mset)
qed

lemma below_0 [simp]: "below rc 0 = 0"
  by (simp add: below_def)

lemma below_Suc: "below rc (Suc k) = below rc k + count_list rc k"
proof -
  have "length (filter (\<lambda>x. x < Suc k) rc) = length (filter (\<lambda>x. x < k) rc) + length (filter (\<lambda>x. x = k) rc)"
    by (induction rc) auto
  moreover have "length (filter (\<lambda>x. x = k) rc) = count_list rc k"
    by (induction rc) auto
  ultimately show ?thesis by (simp add: below_def)
qed

lemma below_all: "\<forall>x\<in>set rc. x < k \<Longrightarrow> below rc k = length rc"
  by (simp add: below_def)

lemma finder_sort: "finder (sort rc) k = [below rc k ..< below rc (Suc k)]"
proof -
  have "finder (sort rc) k =
      [length (filter (\<lambda>x. x < k) (sort rc)) ..< length (filter (\<lambda>x. x \<le> k) (sort rc))]"
    by (rule finder_sorted) simp
  then show ?thesis by (simp add: below_def less_Suc_eq_le)
qed

lemma boundary_row_sort:
  assumes "k \<in> set rc"
  shows "boundary_row (sort rc) k = (below rc k, below rc (Suc k) - 1, count_list rc k)"
    and "below rc k < below rc (Suc k)"
proof -
  have "0 < count_list rc k" using assms count_list_0_iff[of rc k] by auto
  then show lt: "below rc k < below rc (Suc k)" by (simp add: below_Suc)
  then have "hd [below rc k ..< below rc (Suc k)] = below rc k"
    "last [below rc k ..< below rc (Suc k)] = below rc (Suc k) - 1"
    by (simp_all add: hd_upt last_upt)
  then show "boundary_row (sort rc) k = (below rc k, below rc (Suc k) - 1, count_list rc k)"
    using lt by (simp add: boundary_row_def finder_sort Let_def below_Suc)
qed

lemma sort_nth_eq_iff:
  assumes "i < length rc"
  shows "sort rc ! i = k \<longleftrightarrow> below rc k \<le> i \<and> i < below rc (Suc k)"
proof -
  have "i \<in> set (finder (sort rc) k) \<longleftrightarrow> sort rc ! i = k"
    using assms by (auto simp: finder_def)
  then show ?thesis by (simp add: finder_sort)
qed

lemma update_bound:
  assumes "\<forall>x\<in>set rc. x < (N::nat)" "v < N"
  shows "\<forall>x\<in>set (rc[i := v]). x < N"
proof
  fix x assume "x \<in> set (rc[i := v])"
  then have "x \<in> insert v (set rc)" using set_update_subset_insert[of rc i v] by blast
  then show "x < N" using assms by auto
qed

lemma decide_bound:
  assumes "\<forall>x\<in>set rc. x < N" "netNum < N" "nodeNum < length rc \<longrightarrow> restMode prefs nodeNum < N"
  shows "\<forall>x\<in>set (decide r numSubjs prefs netNum nodeNum rc). x < N"
proof (cases "nodeNum < length rc")
  case True
  then have "restMode prefs nodeNum < N" using assms(3) by simp
  then show ?thesis
    unfolding decide_def Let_def
    using update_bound[OF assms(1,2)] update_bound[OF assms(1)] assms(1) by presburger
next
  case False
  then show ?thesis using assms(1) by (simp add: decide_def Let_def list_update_beyond)
qed

lemma fold_decide_bound:
  assumes "\<forall>x\<in>set rc. x < N" "netNum < N" "\<forall>p<length rc. restMode prefs p < N"
  shows "\<forall>x\<in>set (fold (decide r numSubjs prefs netNum) ns rc). x < N"
  using assms
proof (induction ns arbitrary: rc)
  case Nil
  then show ?case by simp
next
  case (Cons n ns)
  have "\<forall>x\<in>set (decide r numSubjs prefs netNum n rc). x < N"
    by (rule decide_bound) (use Cons.prems in auto)
  then have "\<forall>x\<in>set (fold (decide r numSubjs prefs netNum) ns (decide r numSubjs prefs netNum n rc)). x < N"
    by (rule Cons.IH) (use Cons.prems in simp_all)
  then show ?case by simp
qed

lemma net_steps_bound:
  assumes "\<forall>x\<in>set rc. x < N" "\<forall>k\<in>set ks. k < N" "\<forall>p<length rc. restMode prefs p < N"
  shows "\<forall>x\<in>set (fold (net_step r numSubjs prefs b) ks rc). x < N"
  using assms
proof (induction ks arbitrary: rc)
  case Nil
  then show ?case by simp
next
  case (Cons k ks)
  have "\<forall>x\<in>set (net_step r numSubjs prefs b k rc). x < N"
    unfolding net_step_def by (rule fold_decide_bound) (use Cons.prems in simp_all)
  then have "\<forall>x\<in>set (fold (net_step r numSubjs prefs b) ks (net_step r numSubjs prefs b k rc)). x < N"
    by (rule Cons.IH) (use Cons.prems in \<open>simp_all add: net_step_def\<close>)
  then show ?case by simp
qed

lemma prefIdx0_bound:
  assumes "argsort_spec srt" "b \<noteq> []"
  shows "prefIdx0 srt r sm fc b nodeOrder s n < length b"
proof -
  let ?v = "tempVec r sm fc b nodeOrder s n"
  have "srt ?v \<noteq> []" using argsort_spec_length[OF assms(1), of ?v] assms(2) by auto
  then have "last (srt ?v) \<in> set (srt ?v)" by simp
  then show ?thesis using argsort_spec_set[OF assms(1), of ?v] by (simp add: prefIdx0_def)
qed

lemma restMode_bound:
  assumes "argsort_spec srt" "b \<noteq> []" "p < nParcels"
  shows "restMode (restPreferences_of srt r sm (Array3 nParcels n1 numSubjs fc) b nodeOrder) p < length b"
proof -
  let ?row = "tab numSubjs (\<lambda>s. prefIdx0 srt r sm fc b nodeOrder s p)"
  have row: "restPreferences_of srt r sm (Array3 nParcels n1 numSubjs fc) b nodeOrder ! p = ?row"
    using assms(3) by (simp add: restPreferences_of_def tab_def)
  show ?thesis
  proof (cases "numSubjs = 0")
    case True
    then have "?row = []" by (simp add: tab_def)
    then show ?thesis using assms(2) unfolding restMode_def row by (simp add: stats_mode_def)
  next
    case False
    then have ne: "?row \<noteq> []" by (simp add: tab_def)
    obtain m c where mc: "stats_mode ?row = (m, c)" by (cases "stats_mode ?row")
    have "m \<in> set ?row" by (rule stats_mode_props(1)[OF ne mc])
    then have "m < length b" using prefIdx0_bound[OF assms(1,2)] by (auto simp: tab_def)
    then show ?thesis unfolding restMode_def row mc by simp
  qed
qed

lemma consensus_bound:
  assumes "argsort_spec srt" "b \<noteq> []"
  shows "\<forall>x\<in>set (consensus_of srt r sm (Array3 nParcels n1 numSubjs fc) b nodeOrder). x < length b"
proof -
  have "\<forall>p<nParcels. restMode (restPreferences_of srt r sm (Array3 nParcels n1 numSubjs fc) b nodeOrder) p < length b"
    using restMode_bound[OF assms] by blast
  then show ?thesis
    unfolding consensus_of_def array3.case restConsensus_of_alt
    by (intro net_steps_bound) (use assms(2) in auto)
qed

lemma length_consensus_of [simp]:
  "length (consensus_of srt r sm (Array3 nParcels n1 numSubjs fc) b nodeOrder) = nParcels"
  by (simp add: consensus_of_def restConsensus_of_alt)

lemma argsort_sorts:
  assumes "argsort_spec srt"
  shows "map ((!) rc) (srt (map (\<lambda>k. Fin (real k)) rc)) = sort rc"
proof -
  let ?keys = "map (\<lambda>k. Fin (real k)) rc"
  let ?ord = "srt ?keys"
  have perm: "mset ?ord = mset [0..<length rc]" using assms by (simp add: argsort_spec_def)
  have "set ?ord = {0..<length rc}" using argsort_spec_set[OF assms, of ?keys] by simp
  then have inr: "\<forall>i\<in>set ?ord. i < length rc" by auto
  have "sorted_wrt (\<lambda>i j. \<not> sort_lt (?keys ! j) (?keys ! i)) ?ord"
    using assms by (simp add: argsort_spec_def)
  then have "sorted_wrt (\<lambda>i j. rc ! i \<le> rc ! j) ?ord"
    by (rule sorted_wrt_mono_rel[rotated]) (use inr in \<open>auto simp: sort_lt_def\<close>)
  then have srt: "sorted (map ((!) rc) ?ord)" by (simp add: sorted_wrt_map)
  have "mset (map ((!) rc) ?ord) = image_mset ((!) rc) (mset [0..<length rc])"
    by (simp only: mset_map perm)
  also have "\<dots> = mset (map ((!) rc) [0..<length rc])" by (simp only: mset_map)
  also have "\<dots> = mset rc" by (simp only: map_nth)
  finally have "mset (map ((!) rc) ?ord) = mset rc" .
  from properties_for_sort[OF this srt] show ?thesis by simp
qed

lemma argsort_keeps_order:
  assumes "argsort_stable srt"
    and that: "set (srt (map (\<lambda>k. Fin (real k)) rc)) \<subseteq> {0..<length rc}"
  shows "sorted_wrt (\<lambda>i j. rc ! i = rc ! j \<longrightarrow> i < j) (srt (map (\<lambda>k. Fin (real k)) rc))"
proof -
  let ?keys = "map (\<lambda>k. Fin (real k)) rc"
  have "sorted_wrt (\<lambda>i j. ?keys ! i = ?keys ! j \<longrightarrow> i < j) (srt ?keys)"
    using assms by (simp add: argsort_stable_def)
  moreover have "\<forall>i\<in>set (srt ?keys). i < length rc" using that by auto
  ultimately show ?thesis
    by (elim sorted_wrt_mono_rel[rotated]) auto
qed

lemma length_restConsensus_of [simp]:
  "length (restConsensus_of r nParcels numSubjs prefs b) = nParcels"
  by (simp add: restConsensus_of_alt)

lemma run_fields:
  assumes "restPartitionAdjuster srt r sm (Array3 nParcels n1 numSubjs fc) b nodeOrder = Inr out"
  shows "restConsensus out = consensus_of srt r sm (Array3 nParcels n1 numSubjs fc) b nodeOrder"
    "nodeIndicesNew out = sort (restConsensus out)"
    "nodeOrderNew out = srt (map (\<lambda>k. Fin (real k)) (restConsensus out))"
    "netBoundariesNew out = tab (length b) (boundary_row (sort (restConsensus out)))"
    "\<forall>k<length b. k \<in> set (restConsensus out)"
    "length (restConsensus out) = nParcels"
proof -
  let ?rc = "consensus_of srt r sm (Array3 nParcels n1 numSubjs fc) b nodeOrder"
  have ne: "list_all (\<lambda>netNum. finder (sort ?rc) netNum \<noteq> []) [0..<length b]"
    and out: "out = \<lparr> netBoundariesNew = tab (length b) (boundary_row (sort ?rc)),
                 nodeOrderNew = srt (map (\<lambda>k. Fin (real k)) ?rc),
                 restPreferences = restPreferences_of srt r sm (Array3 nParcels n1 numSubjs fc) b nodeOrder,
                 percentAgree = tab nParcels (percentAgree_of r numSubjs
                    (restPreferences_of srt r sm (Array3 nParcels n1 numSubjs fc) b nodeOrder)),
                 restConsensus = ?rc,
                 nodeIndicesNew = sort ?rc \<rparr>"
    using assms
    by (simp_all add: restPartitionAdjuster_def consensus_of_def Let_def split: if_splits)
  show "restConsensus out = ?rc" "nodeIndicesNew out = sort (restConsensus out)"
    "nodeOrderNew out = srt (map (\<lambda>k. Fin (real k)) (restConsensus out))"
    "netBoundariesNew out = tab (length b) (boundary_row (sort (restConsensus out)))"
    by (simp_all add: out)
  show "\<forall>k<length b. k \<in> set (restConsensus out)"
    using ne by (simp add: out list_all_iff finder_Nil_iff)
  show "length (restConsensus out) = nParcels" by (simp add: out)
qed

theorem rebuilt_partition:
  assumes srt: "argsort_spec srt"
    and run: "restPartitionAdjuster srt r sm fcArray b nodeOrder = Inr out"
    and net: "b \<noteq> []"
  shows "mset (nodeOrderNew out) = mset [0..<length (restConsensus out)] \<and>
         map ((!) (restConsensus out)) (nodeOrderNew out) = nodeIndicesNew out \<and>
         sorted (nodeIndicesNew out) \<and>
         (argsort_stable srt \<longrightarrow>
            sorted_wrt (\<lambda>i j. restConsensus out ! i = restConsensus out ! j \<longrightarrow> i < j)
              (nodeOrderNew out)) \<and>
         length (netBoundariesNew out) = length b \<and>
         startNode (netBoundariesNew out) 0 = 0 \<and>
         endNode (netBoundariesNew out) (length b - 1) = length (restConsensus out) \<and>
         (\<forall>k<length b.
            startNode (netBoundariesNew out) k < endNode (netBoundariesNew out) k \<and>
            (Suc k < length b \<longrightarrow>
               startNode (netBoundariesNew out) (Suc k) = endNode (netBoundariesNew out) k) \<and>
            snd (snd (netBoundariesNew out ! k))
              = endNode (netBoundariesNew out) k - startNode (netBoundariesNew out) k \<and>
            snd (snd (netBoundariesNew out ! k)) = count_list (restConsensus out) k \<and>
            (\<forall>i<length (restConsensus out).
               nodeIndicesNew out ! i = k \<longleftrightarrow>
               startNode (netBoundariesNew out) k \<le> i \<and> i < endNode (netBoundariesNew out) k))"
proof -
  obtain nParcels n1 numSubjs fc where A: "fcArray = Array3 nParcels n1 numSubjs fc"
    by (cases fcArray)
  note f = run_fields[OF run[unfolded A]]
  let ?rc = "restConsensus out"
  let ?B = "netBoundariesNew out"
  have row: "?B ! k = (below ?rc k, below ?rc (Suc k) - 1, count_list ?rc k)"
    and lt: "below ?rc k < below ?rc (Suc k)" if "k < length b" for k
    using boundary_row_sort[of k ?rc] f(5) that by (simp_all add: f(4) tab_def)
  have st: "startNode ?B k = below ?rc k" and en: "endNode ?B k = below ?rc (Suc k)"
    if "k < length b" for k
    using row[OF that] lt[OF that] by (simp_all add: startNode_def endNode_def)
  have bound: "\<forall>x\<in>set ?rc. x < length b"
    using consensus_bound[OF srt net] by (simp add: f(1))
  have p1: "mset (nodeOrderNew out) = mset [0..<length ?rc]"
    using srt by (simp add: f(3) argsort_spec_def)
  have p2: "map ((!) ?rc) (nodeOrderNew out) = nodeIndicesNew out"
    by (simp only: f(2,3) argsort_sorts[OF srt])
  have p3: "sorted (nodeIndicesNew out)" by (simp add: f(2))
  have p4: "sorted_wrt (\<lambda>i j. ?rc ! i = ?rc ! j \<longrightarrow> i < j) (nodeOrderNew out)"
    if "argsort_stable srt"
    unfolding f(3)
    by (rule argsort_keeps_order[OF that]) (use argsort_spec_set[OF srt] in simp)
  have p5: "length ?B = length b" by (simp add: f(4) tab_def)
  have pos: "0 < length b" using net by simp
  have p6: "startNode ?B 0 = 0" using st[OF pos] by simp
  have "below ?rc (Suc (length b - 1)) = length ?rc"
    by (rule below_all) (use bound pos in auto)
  then have p7: "endNode ?B (length b - 1) = length ?rc"
    using en[of "length b - 1"] pos by simp
  have p8: "startNode ?B k < endNode ?B k \<and>
            (Suc k < length b \<longrightarrow> startNode ?B (Suc k) = endNode ?B k) \<and>
            snd (snd (?B ! k)) = endNode ?B k - startNode ?B k \<and>
            snd (snd (?B ! k)) = count_list ?rc k \<and>
            (\<forall>i<length ?rc. nodeIndicesNew out ! i = k \<longleftrightarrow> startNode ?B k \<le> i \<and> i < endNode ?B k)"
    if k: "k < length b" for k
  proof (intro conjI impI allI)
    show "startNode ?B k < endNode ?B k" using lt[OF k] by (simp add: st[OF k] en[OF k])
    show "startNode ?B (Suc k) = endNode ?B k" if "Suc k < length b"
      by (simp add: st[OF that] en[OF k])
    show "snd (snd (?B ! k)) = count_list ?rc k" by (simp add: row[OF k])
    show "snd (snd (?B ! k)) = endNode ?B k - startNode ?B k"
      by (simp add: row[OF k] st[OF k] en[OF k] below_Suc)
    show "nodeIndicesNew out ! i = k \<longleftrightarrow> startNode ?B k \<le> i \<and> i < endNode ?B k"
      if "i < length ?rc" for i
      using sort_nth_eq_iff[OF that, of k] by (simp add: f(2) st[OF k] en[OF k])
  qed
  show ?thesis using p1 p2 p3 p4 p5 p6 p7 p8 by blast
qed

theorem rebuilt_partition_witness:
  "\<exists>out. restPartitionAdjuster argsort_insertion id (sequential_sums id) rest_example rest_example_boundaries [0, 1, 2, 3] = Inr out
     \<and> nodeIndicesNew out = [0, 1, 1, 2]
     \<and> map ((!) (restConsensus out)) (nodeOrderNew out) = nodeIndicesNew out
     \<and> sorted_wrt (\<lambda>i j. restConsensus out ! i = restConsensus out ! j \<longrightarrow> i < j) (nodeOrderNew out)
     \<and> startNode (netBoundariesNew out) 0 = 0
     \<and> startNode (netBoundariesNew out) 1 = endNode (netBoundariesNew out) 0
     \<and> snd (snd (netBoundariesNew out ! 1)) = 2"
proof -
  obtain out where run:
    "restPartitionAdjuster argsort_insertion id (sequential_sums id) rest_example rest_example_boundaries [0, 1, 2, 3] = Inr out"
    and out: "nodeIndicesNew out = [0, 1, 1, 2]" "restConsensus out = [0, 1, 1, 2]"
    using rest_example_run by simp
  have ne: "rest_example_boundaries \<noteq> []" "length rest_example_boundaries = 3"
    by (simp_all add: rest_example_boundaries_def)
  note t = rebuilt_partition[OF argsort_insertion_spec run ne(1)]
  from t have a: "map ((!) (restConsensus out)) (nodeOrderNew out) = nodeIndicesNew out"
    and st: "argsort_stable argsort_insertion \<longrightarrow>
      sorted_wrt (\<lambda>i j. restConsensus out ! i = restConsensus out ! j \<longrightarrow> i < j) (nodeOrderNew out)"
    and z: "startNode (netBoundariesNew out) 0 = 0"
    and all: "\<forall>k<length rest_example_boundaries.
            startNode (netBoundariesNew out) k < endNode (netBoundariesNew out) k \<and>
            (Suc k < length rest_example_boundaries \<longrightarrow>
               startNode (netBoundariesNew out) (Suc k) = endNode (netBoundariesNew out) k) \<and>
            snd (snd (netBoundariesNew out ! k))
              = endNode (netBoundariesNew out) k - startNode (netBoundariesNew out) k \<and>
            snd (snd (netBoundariesNew out ! k)) = count_list (restConsensus out) k \<and>
            (\<forall>i<length (restConsensus out).
               nodeIndicesNew out ! i = k \<longleftrightarrow>
               startNode (netBoundariesNew out) k \<le> i \<and> i < endNode (netBoundariesNew out) k)"
    by blast+
  have l0: "0 < length rest_example_boundaries" and l1: "1 < length rest_example_boundaries"
    by (simp_all add: ne)
  from all[rule_format, OF l0] have k0: "Suc 0 < length rest_example_boundaries \<longrightarrow>
      startNode (netBoundariesNew out) (Suc 0) = endNode (netBoundariesNew out) 0"
    by blast
  from all[rule_format, OF l1] have k1: "snd (snd (netBoundariesNew out ! 1)) = count_list (restConsensus out) 1"
    by blast
  have "map ((!) (restConsensus out)) (nodeOrderNew out) = nodeIndicesNew out"
    "sorted_wrt (\<lambda>i j. restConsensus out ! i = restConsensus out ! j \<longrightarrow> i < j) (nodeOrderNew out)"
    "startNode (netBoundariesNew out) 0 = 0"
    "startNode (netBoundariesNew out) 1 = endNode (netBoundariesNew out) 0"
    "snd (snd (netBoundariesNew out ! 1)) = 2"
    using a st z k0 k1 argsort_insertion_stable ne(2) by (simp_all add: out)
  then show ?thesis using run out by auto
qed

end
